theory Spec2Isabelle
  imports Main
begin

section \<open>Data model\<close>

text \<open>
  The atlas browser keeps its data in module-level variables. The static data (loaded once
  by \<open>init\<close>) is collected in the record \<open>atlas\<close>, the mutable variables in the record
  \<open>state\<close>. Structure ids are the non-negative integers of the Allen hierarchy; dandiset
  ids, asset ids and paths are strings.

  A JavaScript \<open>Set\<close> that the code iterates is a list without duplicates in insertion
  order (\<open>setAdd\<close>); a \<open>Set\<close> that is only asked \<open>has\<close> is a HOL set. A plain object
  with integer keys that the code enumerates (\<open>Object.entries\<close>) is an association list
  kept in ascending key order, the order in which JavaScript enumerates integer keys.
\<close>

datatype "structure" =
  Structure (struct_id: nat) (parent_structure_id: "nat option") (children: "structure list")

record region =
  dandiset_count :: nat
  total_dandiset_count :: "nat option"

record asset =
  path :: string
  asset_id :: string
  regions :: "nat list"

type_synonym 'v obj = "(nat \<times> 'v) list"

record subject_counts =
  directSubjects :: "string list obj"
  totalSubjects :: "string list obj"

record atlas =
  idToStructure :: "nat \<rightharpoonup> structure"
  dandiRegions :: "nat \<rightharpoonup> region"
  root_id :: nat
  dataStructureIds :: "nat set"
  ancestorStructureIds :: "nat set"
  noMeshIds :: "nat set"
  dandisetToStructures :: "string \<rightharpoonup> nat list"
  dandisetAssets :: "string \<rightharpoonup> asset list"

subsection \<open>Sets and objects of the host language\<close>

definition setAdd :: "'a \<Rightarrow> 'a list \<Rightarrow> 'a list" where
  "setAdd x xs = (if x \<in> set xs then xs else xs @ [x])"

definition obj_get :: "'v obj \<Rightarrow> nat \<Rightarrow> 'v option" where
  "obj_get ob k = map_of ob k"

fun obj_put :: "nat \<Rightarrow> 'v \<Rightarrow> 'v obj \<Rightarrow> 'v obj" where
  "obj_put k v [] = [(k, v)]"
| "obj_put k v ((k', v') # r) =
     (if k = k' then (k, v) # r
      else if k < k' then (k, v) # (k', v') # r
      else (k', v') # obj_put k v r)"

text \<open>\<open>String.prototype.split\<close> with a one-character separator: never empty.\<close>

fun split_js :: "char \<Rightarrow> string \<Rightarrow> string list" where
  "split_js c [] = [[]]"
| "split_js c (x # xs) =
     (if x = c then [] # split_js c xs
      else (case split_js c xs of r # rs \<Rightarrow> (x # r) # rs | [] \<Rightarrow> [[x]]))"

text \<open>Template-literal formatting of a non-negative integer.\<close>

function dec :: "nat \<Rightarrow> string" where
  "dec n = (if n < 10 then [''0123456789'' ! n] else dec (n div 10) @ [''0123456789'' ! (n mod 10)])"
  by pat_completeness auto
termination
  by (relation "measure (\<lambda>n. n)") auto

declare dec.simps [simp del]

section \<open>Structure index\<close>

text \<open>
  \<open>flattenTree\<close> fills \<open>idToStructure\<close> from the hierarchy forest; a later node with the
  same id overwrites an earlier one. An absent \<open>children\<close> field is the empty list: every
  use in the source is guarded by \<open>if (node.children)\<close>.
\<close>

fun flattenTree :: "structure list \<Rightarrow> (nat \<rightharpoonup> structure) \<Rightarrow> (nat \<rightharpoonup> structure)" where
  "flattenTree [] m = m"
| "flattenTree (Structure i p cs # nodes) m =
     flattenTree nodes (flattenTree cs (m(i \<mapsto> Structure i p cs)))"

fun walk :: "structure \<Rightarrow> nat list \<Rightarrow> nat list" where
  "walk (Structure i p cs) ids = fold walk cs (setAdd i ids)"

definition getDescendantIds :: "(nat \<rightharpoonup> structure) \<Rightarrow> nat \<Rightarrow> nat list" where
  "getDescendantIds idx structureId =
     (case idx structureId of None \<Rightarrow> [] | Some s \<Rightarrow> walk s [])"

text \<open>\<open>idToStructure[current]?.parent_structure_id\<close>: null and undefined both end a walk.\<close>

definition parent :: "(nat \<rightharpoonup> structure) \<Rightarrow> nat \<Rightarrow> nat option" where
  "parent idx c = (case idx c of None \<Rightarrow> None | Some s \<Rightarrow> parent_structure_id s)"

definition parent_rel :: "(nat \<rightharpoonup> structure) \<Rightarrow> (nat \<times> nat) set" where
  "parent_rel idx = {(p, c). parent idx c = Some p}"

inductive ancestor :: "(nat \<rightharpoonup> structure) \<Rightarrow> nat \<Rightarrow> nat \<Rightarrow> bool" for idx where
  ancestor_parent: "parent idx r = Some p \<Longrightarrow> ancestor idx r p"
| ancestor_step: "ancestor idx r a \<Longrightarrow> parent idx a = Some p \<Longrightarrow> ancestor idx r p"

section \<open>Subject aggregation\<close>

text \<open>
  The subject of an asset is the leading directory of its path, or the prefix before the
  first underscore of a path without a directory.
\<close>

definition subjectDirOf :: "string \<Rightarrow> string" where
  "subjectDirOf p =
     (let parts = split_js CHR ''/'' p
      in if length parts > 1 then hd parts else hd (split_js CHR ''_'' p))"

definition addSubjects :: "nat \<Rightarrow> string list \<Rightarrow> string list obj \<Rightarrow> string list obj" where
  "addSubjects k subjects ob =
     obj_put k (fold setAdd subjects (case obj_get ob k of None \<Rightarrow> [] | Some S \<Rightarrow> S)) ob"

definition directOfAsset :: "asset \<Rightarrow> string list obj \<Rightarrow> string list obj" where
  "directOfAsset a ob = fold (\<lambda>r. addSubjects r [subjectDirOf (path a)]) (regions a) ob"

text \<open>
  The walk up the ancestry is a \<open>while (current != null)\<close> loop that the source runs on
  trust: on a cyclic parent chain it does not return, which is the value \<open>None\<close> here.
\<close>

partial_function (option) walkUp ::
  "(nat \<rightharpoonup> structure) \<Rightarrow> string list \<Rightarrow> nat option \<Rightarrow> string list obj \<Rightarrow> string list obj option"
where
  "walkUp idx subjects current totals =
     (case current of
        None \<Rightarrow> Some totals
      | Some c \<Rightarrow> walkUp idx subjects (parent idx c) (addSubjects c subjects totals))"

fun totalLoop ::
  "(nat \<rightharpoonup> structure) \<Rightarrow> string list obj \<Rightarrow> string list obj \<Rightarrow> string list obj option"
where
  "totalLoop idx [] totals = Some totals"
| "totalLoop idx ((rid, subjects) # entries) totals =
     (case walkUp idx subjects (parent idx rid) (addSubjects rid subjects totals) of
        None \<Rightarrow> None
      | Some totals' \<Rightarrow> totalLoop idx entries totals')"

definition computeDandisetSubjectCounts :: "atlas \<Rightarrow> string \<Rightarrow> subject_counts option" where
  "computeDandisetSubjectCounts A dandisetId =
     (let assets = (case dandisetAssets A dandisetId of None \<Rightarrow> [] | Some l \<Rightarrow> l);
          direct = fold directOfAsset assets []
      in case totalLoop (idToStructure A) direct [] of
           None \<Rightarrow> None
         | Some totals \<Rightarrow> Some \<lparr>directSubjects = direct, totalSubjects = totals\<rparr>)"

section \<open>Mesh registry and lazy loading\<close>

text \<open>
  A mesh runtime entry carries what the projector reads and writes: the \<open>userData\<close> flags,
  the \<open>visible\<close> flag and whether its material is the clone of the original one (as
  after loading and after \<open>restoreOriginal\<close>) or the solid clone that \<open>applyActive\<close>
  installs. Colours and opacities are not modelled.
\<close>

datatype material_kind = OriginalMaterial | ActiveMaterial

record mesh =
  userData_structureId :: nat
  userData_isData :: bool
  userData_isRoot :: bool
  visible :: bool
  userData_isDimmed :: bool
  material :: material_kind

text \<open>
  The rendered dandiset panel, as far as \<open>selectSubjectByDir\<close> queries it: the subject
  cards of the current page in document order with their \<open>data-\<close> attributes, and the
  session rows of the multi-session cards. The handlers attached to them close over the
  dandiset id of the rendering.
\<close>

record session_row =
  row_asset_id :: string
  row_region_ids :: "nat list"
  row_subject_dir :: string

record card =
  card_subject_dir :: string
  card_asset_id :: "string option"
  card_region_ids :: "nat list"
  expandable :: bool
  session_rows :: "session_row list"

record panel_view =
  panel_dandisetId :: string
  cards :: "card list"

text \<open>
  \<open>hash\<close> is \<open>location.hash\<close> without its leading \<open>#\<close>. \<open>fetches\<close> lists the geometry
  requests handed to the loader so far and \<open>inFlight\<close> those not yet completed; both
  belong to the environment and no code reads them.
\<close>

record state =
  meshObjects :: "nat \<rightharpoonup> mesh"
  failedMeshIds :: "nat set"
  selectedId :: "nat option"
  selectedDandiset :: "string option"
  dandisetRegionFilter :: "nat option"
  dandisetSubjectCounts :: "subject_counts option"
  hiddenRegionIds :: "nat set"
  hash :: string
  panel :: "panel_view option"
  fetches :: "nat list"
  inFlight :: "nat list"

definition applyDimmed :: "mesh \<Rightarrow> mesh" where
  "applyDimmed m = m\<lparr>visible := False, userData_isDimmed := True\<rparr>"

definition restoreOriginal :: "mesh \<Rightarrow> mesh" where
  "restoreOriginal m = m\<lparr>material := OriginalMaterial, visible := True, userData_isDimmed := False\<rparr>"

definition applyActive :: "mesh \<Rightarrow> mesh" where
  "applyActive m = m\<lparr>material := ActiveMaterial, visible := True, userData_isDimmed := False\<rparr>"

text \<open>The meshes offered to the raycaster: \<open>m.userData.isData && m.visible\<close>.\<close>

definition pickable :: "mesh \<Rightarrow> bool" where
  "pickable m = (userData_isData m \<and> visible m)"

text \<open>
  \<open>loadMesh\<close> hands a request to the loader and returns a pending promise. The loader
  later calls back with one of three outcomes: a geometry, an object file without a
  child mesh, or an error.
\<close>

datatype outcome = Geometry | EmptyObject | LoadError

datatype promise = Resolved "mesh option" | Pending

definition loadMesh :: "nat \<Rightarrow> state \<Rightarrow> state" where
  "loadMesh structureId st =
     st\<lparr>fetches := fetches st @ [structureId], inFlight := inFlight st @ [structureId]\<rparr>"

definition ensureMeshLoaded :: "nat \<Rightarrow> state \<Rightarrow> promise \<times> state" where
  "ensureMeshLoaded structureId st =
     (case meshObjects st structureId of
        Some m \<Rightarrow> (Resolved (Some m), st)
      | None \<Rightarrow>
          if structureId \<in> failedMeshIds st then (Resolved None, st)
          else (Pending, loadMesh structureId st))"

definition onLoad :: "atlas \<Rightarrow> nat \<Rightarrow> state \<Rightarrow> state" where
  "onLoad A structureId st =
     (let isRoot = (structureId = root_id A);
          hasData = (dandiRegions A structureId \<noteq> None);
          m = \<lparr>userData_structureId = structureId, userData_isData = hasData,
               userData_isRoot = isRoot, visible = True, userData_isDimmed = False,
               material = OriginalMaterial\<rparr>;
          dim =
            (case selectedId st of
               Some sel \<Rightarrow>
                 structureId \<notin> set (getDescendantIds (idToStructure A) sel)
                 \<and> structureId \<noteq> root_id A
             | None \<Rightarrow>
                 (case selectedDandiset st of
                    Some d \<Rightarrow>
                      structureId \<notin> set (case dandisetToStructures A d of
                                            None \<Rightarrow> [] | Some l \<Rightarrow> l)
                  | None \<Rightarrow> False))
      in st\<lparr>meshObjects := (meshObjects st)(structureId \<mapsto> (if dim then applyDimmed m else m))\<rparr>)"

definition loadMesh_done :: "atlas \<Rightarrow> nat \<Rightarrow> outcome \<Rightarrow> state \<Rightarrow> state" where
  "loadMesh_done A structureId out st =
     (let st' = st\<lparr>inFlight := remove1 structureId (inFlight st)\<rparr>
      in case out of
           Geometry \<Rightarrow> onLoad A structureId st'
         | EmptyObject \<Rightarrow> st'
         | LoadError \<Rightarrow> st'\<lparr>failedMeshIds := insert structureId (failedMeshIds st')\<rparr>)"

text \<open>
  The browser runs one callback at a time. A trace of the loader is a sequence of calls
  of \<open>ensureMeshLoaded\<close> and of completions; a completion can only arrive for a request
  that is in flight.
\<close>

datatype event = Ensure nat | Completed nat outcome

definition step :: "atlas \<Rightarrow> event \<Rightarrow> state \<Rightarrow> state option" where
  "step A ev st =
     (case ev of
        Ensure i \<Rightarrow> Some (snd (ensureMeshLoaded i st))
      | Completed i out \<Rightarrow>
          if i \<in> set (inFlight st) then Some (loadMesh_done A i out st) else None)"

fun run :: "atlas \<Rightarrow> event list \<Rightarrow> state \<Rightarrow> state option" where
  "run A [] st = Some st"
| "run A (ev # evs) st = (case step A ev st of None \<Rightarrow> None | Some st' \<Rightarrow> run A evs st')"

section \<open>Mesh visibility projection\<close>

partial_function (option) nearestLoop ::
  "(nat \<rightharpoonup> structure) \<Rightarrow> (nat \<rightharpoonup> mesh) \<Rightarrow> nat option \<Rightarrow> nat option option"
where
  "nearestLoop idx ms current =
     (case current of
        None \<Rightarrow> Some None
      | Some c \<Rightarrow> if ms c \<noteq> None then Some (Some c) else nearestLoop idx ms (parent idx c))"

definition findNearestAncestorWithMesh :: "atlas \<Rightarrow> state \<Rightarrow> nat \<Rightarrow> nat option option" where
  "findNearestAncestorWithMesh A st structureId =
     nearestLoop (idToStructure A) (meshObjects st) (parent (idToStructure A) structureId)"

definition applyIsolation :: "nat \<Rightarrow> nat list \<Rightarrow> nat option \<Rightarrow> state \<Rightarrow> state" where
  "applyIsolation selectedStructureId activeIds fallbackId st =
     (let showId = (if meshObjects st selectedStructureId \<noteq> None
                    then Some selectedStructureId else fallbackId)
      in st\<lparr>meshObjects := (\<lambda>i. map_option
                (\<lambda>m. if Some i = showId then applyActive m else applyDimmed m)
                (meshObjects st i))\<rparr>)"

text \<open>
  \<open>isolateRegion\<close> applies the isolation at once to the meshes already loaded and again
  when the requests it issued have completed (\<open>isolateRegion_then\<close>, with the arguments
  captured at the call). \<open>if (fallbackId)\<close> is false for the id 0.
\<close>

definition isolateRegion :: "atlas \<Rightarrow> nat \<Rightarrow> state \<Rightarrow> state option" where
  "isolateRegion A structureId st =
     (case (if meshObjects st structureId = None
            then findNearestAncestorWithMesh A st structureId else Some None) of
        None \<Rightarrow> None
      | Some fallbackId \<Rightarrow>
          let descendants = getDescendantIds (idToStructure A) structureId;
              activeIds = (case fallbackId of
                             Some f \<Rightarrow> if f \<noteq> 0 then setAdd f descendants else descendants
                           | None \<Rightarrow> descendants);
              st1 = fold (\<lambda>i s.
                      if meshObjects s i = None
                         \<and> (i \<in> dataStructureIds A \<or> i \<in> ancestorStructureIds A)
                      then snd (ensureMeshLoaded i s) else s) activeIds st
          in Some (applyIsolation structureId activeIds fallbackId st1))"

definition isolateRegion_then :: "nat \<Rightarrow> nat list \<Rightarrow> nat option \<Rightarrow> state \<Rightarrow> state" where
  "isolateRegion_then structureId activeIds fallbackId st =
     applyIsolation structureId activeIds fallbackId st"

definition showAllRegions :: "state \<Rightarrow> state" where
  "showAllRegions st = st\<lparr>meshObjects := (\<lambda>i. map_option restoreOriginal (meshObjects st i))\<rparr>"

section \<open>Selection state controller\<close>

definition setHash :: "string \<Rightarrow> state \<Rightarrow> state" where
  "setHash h st = st\<lparr>hash := h\<rparr>"

text \<open>
  \<open>selectRegion\<close> also highlights the mesh, marks the tree node and renders the region
  panel, which replaces the content of the panel element.
\<close>

definition selectRegion :: "atlas \<Rightarrow> nat \<Rightarrow> bool \<Rightarrow> state \<Rightarrow> state option" where
  "selectRegion A structureId pushState st =
     (let st1 = st\<lparr>selectedId := Some structureId, selectedDandiset := None,
                   hiddenRegionIds := {}\<rparr>;
          st2 = (if pushState then setHash (''region='' @ dec structureId) st1 else st1)
      in map_option (\<lambda>s. s\<lparr>panel := None\<rparr>) (isolateRegion A structureId st2))"

text \<open>
  The projection shared by \<open>selectDandiset\<close> and \<open>isolateStructureIds\<close> (the source
  repeats it in both): a structure without a loaded mesh is represented by its nearest
  ancestor with one, and a mesh is shown when one of the regions it stands for is not
  hidden. \<open>if (meshId)\<close> is false for null and for the id 0.
\<close>

fun buildMeshToRegions ::
  "atlas \<Rightarrow> state \<Rightarrow> nat list \<Rightarrow> nat set \<times> (nat \<rightharpoonup> nat list)
     \<Rightarrow> (nat set \<times> (nat \<rightharpoonup> nat list)) option"
where
  "buildMeshToRegions A st [] acc = Some acc"
| "buildMeshToRegions A st (sid # sids) (activeSet, meshToRegions) =
     (case (if meshObjects st sid \<noteq> None then Some (Some sid)
            else findNearestAncestorWithMesh A st sid) of
        None \<Rightarrow> None
      | Some None \<Rightarrow> buildMeshToRegions A st sids (activeSet, meshToRegions)
      | Some (Some meshId) \<Rightarrow>
          if meshId = 0 then buildMeshToRegions A st sids (activeSet, meshToRegions)
          else buildMeshToRegions A st sids
                 (insert meshId activeSet,
                  meshToRegions(meshId \<mapsto>
                    (case meshToRegions meshId of None \<Rightarrow> [] | Some l \<Rightarrow> l) @ [sid])))"

definition projectStructureIds :: "atlas \<Rightarrow> nat list \<Rightarrow> state \<Rightarrow> state option" where
  "projectStructureIds A structureIds st =
     (case buildMeshToRegions A st structureIds (set structureIds, Map.empty) of
        None \<Rightarrow> None
      | Some (activeSet0, meshToRegions) \<Rightarrow>
          let activeSet = activeSet0 - {root_id A}
          in Some (st\<lparr>meshObjects := (\<lambda>i. map_option
               (\<lambda>m. if i \<in> activeSet then
                       (let rs = (case meshToRegions i of None \<Rightarrow> [i] | Some l \<Rightarrow> l);
                            allHidden = list_all (\<lambda>rid. rid \<in> hiddenRegionIds st) rs
                        in if \<not> allHidden then applyActive m else applyDimmed m)
                     else applyDimmed m)
               (meshObjects st i))\<rparr>))"

text \<open>The loop that fills \<open>toLoad\<close>: the number of requests pushed, and the new state.\<close>

definition loadMissing :: "atlas \<Rightarrow> nat list \<Rightarrow> state \<Rightarrow> nat \<times> state" where
  "loadMissing A structureIds st =
     fold (\<lambda>sid (n, s).
        if meshObjects s sid = None \<and> sid \<notin> failedMeshIds s \<and> sid \<notin> noMeshIds A
        then (Suc n, snd (ensureMeshLoaded sid s)) else (n, s)) structureIds (0, st)"

text \<open>
  An \<open>async\<close> function runs up to its first \<open>await\<close> when it is called; what follows the
  \<open>await\<close> is a callback of its own (\<open>_resume\<close>). \<open>isolateStructureIds\<close> and
  \<open>selectDandiset\<close> await only when they have requested a mesh.
\<close>

definition isolateStructureIds_resume :: "atlas \<Rightarrow> nat list \<Rightarrow> state \<Rightarrow> state option" where
  "isolateStructureIds_resume A structureIds st = projectStructureIds A structureIds st"

definition isolateStructureIds :: "atlas \<Rightarrow> nat list \<Rightarrow> state \<Rightarrow> state option" where
  "isolateStructureIds A structureIds st =
     (case loadMissing A structureIds st of
        (n, st1) \<Rightarrow> if n > 0 then Some st1 else isolateStructureIds_resume A structureIds st1)"

definition structuresOf :: "atlas \<Rightarrow> string \<Rightarrow> nat list" where
  "structuresOf A dandisetId =
     (case dandisetToStructures A dandisetId of None \<Rightarrow> [] | Some l \<Rightarrow> l)"

definition selectDandiset_resume :: "atlas \<Rightarrow> string \<Rightarrow> state \<Rightarrow> state option" where
  "selectDandiset_resume A dandisetId st = projectStructureIds A (structuresOf A dandisetId) st"

definition selectDandiset :: "atlas \<Rightarrow> string \<Rightarrow> bool \<Rightarrow> state \<Rightarrow> state option" where
  "selectDandiset A dandisetId pushState st =
     (case computeDandisetSubjectCounts A dandisetId of
        None \<Rightarrow> None
      | Some counts \<Rightarrow>
          let st1 = st\<lparr>selectedDandiset := Some dandisetId, selectedId := None,
                       dandisetRegionFilter := None, dandisetSubjectCounts := Some counts,
                       hiddenRegionIds := {}\<rparr>;
              st2 = (if pushState then setHash (''dandiset='' @ dandisetId) st1 else st1)
          in case loadMissing A (structuresOf A dandisetId) st2 of
               (n, st3) \<Rightarrow> if n > 0 then Some st3 else selectDandiset_resume A dandisetId st3)"

definition clearDandisetFilter :: "state \<Rightarrow> state" where
  "clearDandisetFilter st =
     (let st1 = showAllRegions (st\<lparr>dandisetRegionFilter := None, hiddenRegionIds := {}\<rparr>)
      in st1\<lparr>selectedDandiset := None, selectedId := None, dandisetSubjectCounts := None,
             hash := [], panel := None\<rparr>)"

definition filterDandisetPanelByRegion :: "atlas \<Rightarrow> nat \<Rightarrow> bool \<Rightarrow> state \<Rightarrow> state option" where
  "filterDandisetPanelByRegion A structureId pushState st =
     (case selectedDandiset st of
        None \<Rightarrow> Some st
      | Some d \<Rightarrow>
          if d = [] then Some st
          else
            let st1 = st\<lparr>dandisetRegionFilter := Some structureId\<rparr>;
                st2 = (if pushState
                       then setHash (''dandiset='' @ d @ ''&region='' @ dec structureId) st1
                       else st1);
                descendantIds = getDescendantIds (idToStructure A) structureId;
                matchingStructures = filter (\<lambda>i. i \<in> set descendantIds) (structuresOf A d)
            in if length matchingStructures > 0
               then isolateStructureIds A matchingStructures st2
               else isolateStructureIds A [structureId] st2)"

section \<open>Detail panel\<close>

record subject_entry =
  entry_regions :: "nat list"
  entry_assets :: "asset list"
  entry_subjectDir :: string

definition stripSub :: "string \<Rightarrow> string" where
  "stripSub subjectDir = (if take 4 subjectDir = ''sub-'' then drop 4 subjectDir else subjectDir)"

text \<open>A \<open>Map\<close> keeps its keys in insertion order; setting a present key keeps its place.\<close>

fun mapSet :: "'k \<Rightarrow> 'v \<Rightarrow> ('k \<times> 'v) list \<Rightarrow> ('k \<times> 'v) list" where
  "mapSet k v [] = [(k, v)]"
| "mapSet k v ((k', v') # r) = (if k = k' then (k, v) # r else (k', v') # mapSet k v r)"

definition groupAsset :: "asset \<Rightarrow> (string \<times> subject_entry) list \<Rightarrow> (string \<times> subject_entry) list" where
  "groupAsset a subjectMap =
     (let subjectDir = subjectDirOf (path a);
          subjectId = stripSub subjectDir;
          entry = (case map_of subjectMap subjectId of
                     None \<Rightarrow> \<lparr>entry_regions = [], entry_assets = [], entry_subjectDir = subjectDir\<rparr>
                   | Some e \<Rightarrow> e)
      in mapSet subjectId
           (entry\<lparr>entry_assets := entry_assets entry @ [a],
                  entry_regions := fold setAdd (regions a) (entry_regions entry)\<rparr>)
           subjectMap)"

definition groupSubjects :: "asset list \<Rightarrow> (string \<times> subject_entry) list" where
  "groupSubjects assets = fold groupAsset assets []"

definition cardOf :: "subject_entry \<Rightarrow> card" where
  "cardOf entry =
     (if length (entry_assets entry) > 1
      then \<lparr>card_subject_dir = entry_subjectDir entry, card_asset_id = None,
            card_region_ids = entry_regions entry, expandable = True,
            session_rows = map (\<lambda>a. \<lparr>row_asset_id = asset_id a, row_region_ids = regions a,
                                      row_subject_dir = entry_subjectDir entry\<rparr>)
                               (entry_assets entry)\<rparr>
      else \<lparr>card_subject_dir = entry_subjectDir entry,
            card_asset_id = map_option asset_id (list.case_list None (\<lambda>a _. Some a) (entry_assets entry)),
            card_region_ids = entry_regions entry, expandable = False, session_rows = []\<rparr>)"

text \<open>
  \<open>updateDandisetPanel\<close> awaits the electrode data and then renders page 0; only this
  rendering writes the panel. \<open>if (dandisetRegionFilter)\<close> is false for null and for 0.
\<close>

definition updateDandisetPanel_render :: "atlas \<Rightarrow> string \<Rightarrow> state \<Rightarrow> state" where
  "updateDandisetPanel_render A dandisetId st =
     (let assets = (case dandisetAssets A dandisetId of None \<Rightarrow> [] | Some l \<Rightarrow> l);
          allSubjects = groupSubjects assets;
          displaySubjects =
            (case dandisetRegionFilter st of
               None \<Rightarrow> allSubjects
             | Some f \<Rightarrow>
                 if f = 0 then allSubjects
                 else filter (\<lambda>(k, entry).
                        list_ex (\<lambda>rid. rid \<in> set (getDescendantIds (idToStructure A) f))
                                (entry_regions entry)) allSubjects);
          pageSubjects = take 20 displaySubjects
      in st\<lparr>panel := Some \<lparr>panel_dandisetId = dandisetId,
                             cards = map (\<lambda>(k, entry). cardOf entry) pageSubjects\<rparr>\<rparr>)"

definition sessionRowClick :: "atlas \<Rightarrow> string \<Rightarrow> session_row \<Rightarrow> state \<Rightarrow> state option" where
  "sessionRowClick A dandisetId row st =
     (let st1 = st\<lparr>dandisetRegionFilter := None\<rparr>;
          st2 = (if row_asset_id row \<noteq> []
                 then setHash (''dandiset='' @ dandisetId @ ''&subject='' @ row_subject_dir row
                               @ ''&session='' @ row_asset_id row) st1
                 else setHash (''dandiset='' @ dandisetId @ ''&subject='' @ row_subject_dir row) st1)
      in isolateStructureIds A (row_region_ids row) st2)"

definition subjectCardClick :: "atlas \<Rightarrow> string \<Rightarrow> card \<Rightarrow> state \<Rightarrow> state option" where
  "subjectCardClick A dandisetId c st =
     (let st1 = st\<lparr>dandisetRegionFilter := None\<rparr>;
          st2 = (case card_asset_id c of
                   Some assetId \<Rightarrow>
                     if assetId \<noteq> []
                     then setHash (''dandiset='' @ dandisetId @ ''&subject='' @ card_subject_dir c
                                   @ ''&session='' @ assetId) st1
                     else setHash (''dandiset='' @ dandisetId) st1
                 | None \<Rightarrow> setHash (''dandiset='' @ dandisetId) st1)
      in isolateStructureIds A (card_region_ids c) st2)"

text \<open>
  \<open>selectSubjectByDir\<close> looks the row or card up in whatever the panel shows and clicks
  it; its first parameter is not used by the source.
\<close>

definition selectSubjectByDir ::
  "atlas \<Rightarrow> string \<Rightarrow> string \<Rightarrow> string option \<Rightarrow> state \<Rightarrow> state option"
where
  "selectSubjectByDir A dandisetId subjectDir sessionAssetId st =
     (case panel st of
        None \<Rightarrow> Some st
      | Some pv \<Rightarrow>
          let sessionRow =
                (case sessionAssetId of
                   None \<Rightarrow> None
                 | Some sa \<Rightarrow>
                     if sa = [] then None
                     else find (\<lambda>r. row_asset_id r = sa) (concat (map session_rows (cards pv))))
          in case sessionRow of
               Some r \<Rightarrow> sessionRowClick A (panel_dandisetId pv) r st
             | None \<Rightarrow>
                 (case find (\<lambda>c. card_subject_dir c = subjectDir) (cards pv) of
                    None \<Rightarrow> Some st
                  | Some c \<Rightarrow>
                      if expandable c then Some st
                      else subjectCardClick A (panel_dandisetId pv) c st))"

section \<open>URL hash bridge\<close>

text \<open>\<open>Object.fromEntries(hash.split('&').map(p => p.split('=')))\<close>.\<close>

definition parseParams :: "string \<Rightarrow> (string \<rightharpoonup> string)" where
  "parseParams h =
     fold (\<lambda>p m. case split_js CHR ''='' p of
                    [] \<Rightarrow> m
                  | k # rest \<Rightarrow> m(k := (case rest of [] \<Rightarrow> None | v # _ \<Rightarrow> Some v)))
          (split_js CHR ''&'' h) Map.empty"

text \<open>A parameter used as a condition: present and not the empty string.\<close>

definition truthy :: "string option \<Rightarrow> string option" where
  "truthy v = (case v of None \<Rightarrow> None | Some x \<Rightarrow> if x = [] then None else Some x)"

text \<open>
  \<open>parseInt\<close> without a radix: leading white space, a sign, an optional \<open>0x\<close> prefix and
  the longest run of digits; \<open>None\<close> is \<open>NaN\<close>. Numbers are exact integers here, as in
  the source below \<open>2^53\<close>.
\<close>

fun indexOf :: "char \<Rightarrow> string \<Rightarrow> nat \<Rightarrow> nat option" where
  "indexOf c [] n = None"
| "indexOf c (x # xs) n = (if x = c then Some n else indexOf c xs (Suc n))"

definition digitVal :: "nat \<Rightarrow> char \<Rightarrow> nat option" where
  "digitVal radix c =
     (case (case indexOf c ''0123456789abcdef'' 0 of
              None \<Rightarrow> indexOf c ''0123456789ABCDEF'' 0 | Some d \<Rightarrow> Some d) of
        None \<Rightarrow> None
      | Some d \<Rightarrow> if d < radix then Some d else None)"

fun takeDigits :: "nat \<Rightarrow> string \<Rightarrow> nat list" where
  "takeDigits radix [] = []"
| "takeDigits radix (c # cs) =
     (case digitVal radix c of None \<Rightarrow> [] | Some d \<Rightarrow> d # takeDigits radix cs)"

definition isWhite :: "char \<Rightarrow> bool" where
  "isWhite c = (c \<in> {CHR 0x20, CHR 0x09, CHR 0x0A, CHR 0x0B, CHR 0x0C, CHR 0x0D})"

definition parseInt :: "string \<Rightarrow> int option" where
  "parseInt s =
     (let s1 = dropWhile isWhite s;
          neg = (take 1 s1 = ''-'');
          s2 = (if take 1 s1 = ''-'' \<or> take 1 s1 = ''+'' then drop 1 s1 else s1);
          hex = (take 2 s2 = ''0x'' \<or> take 2 s2 = ''0X'');
          radix = (if hex then 16 else 10);
          ds = takeDigits radix (if hex then drop 2 s2 else s2);
          n = foldl (\<lambda>a d. a * radix + d) 0 ds
      in if ds = [] then None else Some (if neg then - int n else int n))"

definition structureAt :: "atlas \<Rightarrow> int \<Rightarrow> structure option" where
  "structureAt A sid = (if sid < 0 then None else idToStructure A (nat sid))"

text \<open>
  \<open>applyHashState\<close> runs up to its \<open>await\<close>: it returns the state and, when it took the
  dandiset branch, the parameters with which \<open>applyHashState_resume\<close> continues once
  \<open>selectDandiset\<close> has finished. \<open>idToStructure[NaN]\<close> is undefined.
\<close>

datatype continuation = Finished | AwaitSelectDandiset "string \<rightharpoonup> string" string

definition applyHashState :: "atlas \<Rightarrow> state \<Rightarrow> (continuation \<times> state) option" where
  "applyHashState A st =
     (if hash st = [] then
        (if selectedId st \<noteq> None \<or> selectedDandiset st \<noteq> None
         then Some (Finished,
                    showAllRegions (st\<lparr>selectedId := None, selectedDandiset := None,
                      dandisetSubjectCounts := None, hiddenRegionIds := {}\<rparr>)\<lparr>panel := None\<rparr>)
         else Some (Finished, st))
      else
        let params = parseParams (hash st)
        in case truthy (params ''region'') of
             Some r \<Rightarrow>
               (case parseInt r of
                  None \<Rightarrow> Some (Finished, st)
                | Some sid \<Rightarrow>
                    if structureAt A sid \<noteq> None
                    then map_option (Pair Finished) (selectRegion A (nat sid) False st)
                    else Some (Finished, st))
           | None \<Rightarrow>
               (case truthy (params ''dandiset'') of
                  Some did \<Rightarrow>
                    if dandisetToStructures A did \<noteq> None
                    then map_option (Pair (AwaitSelectDandiset params did))
                           (selectDandiset A did False st)
                    else Some (Finished, st)
                | None \<Rightarrow> Some (Finished, st)))"

definition applyHashState_resume ::
  "atlas \<Rightarrow> (string \<rightharpoonup> string) \<Rightarrow> string \<Rightarrow> state \<Rightarrow> state option"
where
  "applyHashState_resume A params did st =
     (case (case truthy (params ''region'') of
              Some r \<Rightarrow>
                (case parseInt r of
                   None \<Rightarrow> Some st
                 | Some rid \<Rightarrow>
                     if structureAt A rid \<noteq> None
                     then filterDandisetPanelByRegion A (nat rid) False st else Some st)
            | None \<Rightarrow> Some st) of
        None \<Rightarrow> None
      | Some st1 \<Rightarrow>
          (case truthy (params ''subject'') of
             Some subj \<Rightarrow> selectSubjectByDir A did subj (truthy (params ''session'')) st1
           | None \<Rightarrow> Some st1))"

text \<open>
  The operations on the selection state, as the callbacks the browser runs one at a time.
\<close>

datatype operation =
    SelectRegion nat bool
  | SelectDandiset string bool
  | SelectDandisetResume string
  | FilterDandisetPanelByRegion nat bool
  | ClearDandisetFilter
  | ApplyHashState
  | ApplyHashStateResume "string \<rightharpoonup> string" string

fun exec :: "atlas \<Rightarrow> operation \<Rightarrow> state \<Rightarrow> state option" where
  "exec A (SelectRegion i pushState) st = selectRegion A i pushState st"
| "exec A (SelectDandiset d pushState) st = selectDandiset A d pushState st"
| "exec A (SelectDandisetResume d) st = selectDandiset_resume A d st"
| "exec A (FilterDandisetPanelByRegion i pushState) st = filterDandisetPanelByRegion A i pushState st"
| "exec A ClearDandisetFilter st = Some (clearDandisetFilter st)"
| "exec A ApplyHashState st = map_option snd (applyHashState A st)"
| "exec A (ApplyHashStateResume params did) st = applyHashState_resume A params did st"

fun execAll :: "atlas \<Rightarrow> operation list \<Rightarrow> state \<Rightarrow> state option" where
  "execAll A [] st = Some st"
| "execAll A (ope # ops) st = (case exec A ope st of None \<Rightarrow> None | Some st' \<Rightarrow> execAll A ops st')"

text \<open>The variables as the module initialises them, before any mesh is requested.\<close>

definition initialState :: state where
  "initialState =
     \<lparr>meshObjects = Map.empty, failedMeshIds = {}, selectedId = None, selectedDandiset = None,
      dandisetRegionFilter = None, dandisetSubjectCounts = None, hiddenRegionIds = {},
      hash = [], panel = None, fetches = [], inFlight = []\<rparr>"

section \<open>Tree badges\<close>

record badge =
  innerHTML :: string
  title :: string

text \<open>\<open>x?.size || 0\<close> on an entry of the subject counts.\<close>

definition sizeOr0 :: "string list option \<Rightarrow> nat" where
  "sizeOr0 v = (case v of None \<Rightarrow> 0 | Some S \<Rightarrow> length S)"

definition badgeCounts :: "state \<Rightarrow> region \<Rightarrow> nat \<Rightarrow> nat \<times> nat \<times> string" where
  "badgeCounts st reg nodeId =
     (case dandisetSubjectCounts st of
        Some c \<Rightarrow>
          (sizeOr0 (obj_get (directSubjects c) nodeId),
           sizeOr0 (obj_get (totalSubjects c) nodeId), ''subjects'')
      | None \<Rightarrow>
          (dandiset_count reg,
           (case total_dandiset_count reg of
              None \<Rightarrow> dandiset_count reg
            | Some t \<Rightarrow> if t \<noteq> 0 then t else dandiset_count reg),
           ''dandisets''))"

definition renderBadge :: "atlas \<Rightarrow> state \<Rightarrow> nat \<Rightarrow> badge" where
  \<open>renderBadge A st nodeId =
     (case dandiRegions A nodeId of
        None \<Rightarrow> \<lparr>innerHTML = [], title = []\<rparr>
      | Some reg \<Rightarrow>
          (case badgeCounts st reg nodeId of
             (direct, total', unit) \<Rightarrow>
               if total' = 0 then \<lparr>innerHTML = [], title = []\<rparr>
               else if direct > 0 \<and> direct \<noteq> total' then
                 \<lparr>innerHTML = ''<span class="badge-direct">'' @ dec direct @ ''</span>''
                              @ ''<span class="badge-sep">/</span>''
                              @ ''<span class="badge-total">'' @ dec total' @ ''</span>'',
                  title = dec direct @ '' direct, '' @ dec total' @ '' incl. sub-regions '' @ unit\<rparr>
               else if direct > 0 then
                 \<lparr>innerHTML = ''<span class="badge-direct">'' @ dec direct @ ''</span>'',
                  title = dec direct @ '' '' @ unit\<rparr>
               else
                 \<lparr>innerHTML = ''<span class="badge-total">'' @ dec total' @ ''</span>'',
                  title = dec total' @ '' '' @ unit @ '' in sub-regions''\<rparr>))\<close>

text \<open>What the badge shows: the text of its markup, the tags left out.\<close>

fun textOf :: "bool \<Rightarrow> string \<Rightarrow> string" where
  "textOf inTag [] = []"
| "textOf inTag (c # cs) =
     (if inTag then (if c = CHR ''>'' then textOf False cs else textOf True cs)
      else if c = CHR ''<'' then textOf True cs else c # textOf False cs)"

definition textContent :: "badge \<Rightarrow> string" where
  "textContent b = textOf False (innerHTML b)"

section \<open>Vocabulary of the claims and a running example\<close>

text \<open>The subjects recorded for a structure; a missing entry counts as no subject.\<close>

definition subjectsAt :: "string list obj \<Rightarrow> nat \<Rightarrow> string set" where
  "subjectsAt ob k = (case obj_get ob k of None \<Rightarrow> {} | Some S \<Rightarrow> set S)"

text \<open>The ids a parent walk that starts at \<open>current\<close> visits.\<close>

definition inChain :: "(nat \<rightharpoonup> structure) \<Rightarrow> nat option \<Rightarrow> nat \<Rightarrow> bool" where
  "inChain idx current k =
     (case current of None \<Rightarrow> False | Some c \<Rightarrow> k = c \<or> ancestor idx c k)"

text \<open>
  A small atlas: the root 997 with the child 8, which has the children 313 and 512, and
  the dandiset 001176 with two assets.
\<close>

definition exampleGraph :: "structure list" where
  "exampleGraph =
     [Structure 997 None
        [Structure 8 (Some 997) [Structure 313 (Some 8) [], Structure 512 (Some 8) []]]]"

definition exampleAtlas :: atlas where
  "exampleAtlas =
     \<lparr>idToStructure = flattenTree exampleGraph Map.empty,
      dandiRegions = [313 \<mapsto> \<lparr>dandiset_count = 3, total_dandiset_count = Some 3\<rparr>,
                      512 \<mapsto> \<lparr>dandiset_count = 3, total_dandiset_count = Some 7\<rparr>,
                      8 \<mapsto> \<lparr>dandiset_count = 0, total_dandiset_count = Some 5\<rparr>],
      root_id = 997,
      dataStructureIds = {8, 313, 512},
      ancestorStructureIds = {},
      noMeshIds = {},
      dandisetToStructures = [''001176'' \<mapsto> [313, 512]],
      dandisetAssets =
        [''001176'' \<mapsto>
           [\<lparr>path = ''sub-A/sub-A_ses-1.nwb'', asset_id = ''a1'', regions = [313]\<rparr>,
            \<lparr>path = ''A/A_ses-2.nwb'', asset_id = ''a2'', regions = [313, 512]\<rparr>]]\<rparr>"

text \<open>The example after the meshes of 997, 8 and 313 have arrived, nothing selected.\<close>

definition exampleLoaded :: state where
  "exampleLoaded = onLoad exampleAtlas 313 (onLoad exampleAtlas 8 (onLoad exampleAtlas 997 initialState))"

text \<open>
  The subject counts of a reachable state: null, or what \<open>selectDandiset\<close> stored, the
  result of \<open>computeDandisetSubjectCounts\<close> for some dandiset.
\<close>

definition countsComputed :: "atlas \<Rightarrow> state \<Rightarrow> bool" where
  "countsComputed A st =
     (case dandisetSubjectCounts st of
        None \<Rightarrow> True
      | Some c \<Rightarrow> \<exists>d. computeDandisetSubjectCounts A d = Some c)"

text \<open>
  The mesh that stands for a selected structure: its own when it is loaded, otherwise the
  one that \<open>findNearestAncestorWithMesh\<close> returns (none at all when no ancestor has
  one).
\<close>

definition shownId :: "atlas \<Rightarrow> state \<Rightarrow> nat \<Rightarrow> nat option option" where
  "shownId A st structureId =
     (if meshObjects st structureId \<noteq> None then Some (Some structureId)
      else findNearestAncestorWithMesh A st structureId)"

text \<open>The two selection variables, unchanged, and at most one of them set.\<close>

definition sameSelection :: "state \<Rightarrow> state \<Rightarrow> bool" where
  "sameSelection st st' =
     (selectedId st' = selectedId st \<and> selectedDandiset st' = selectedDandiset st)"

definition atMostOne :: "state \<Rightarrow> bool" where
  "atMostOne st = (selectedId st = None \<or> selectedDandiset st = None)"

text \<open>
  A well-formed hierarchy: every node names its tree parent in \<open>parent_structure_id\<close> (a
  root names none) and no id occurs twice.
\<close>

fun nodesOf :: "structure \<Rightarrow> structure list" where
  "nodesOf (Structure i p cs) = Structure i p cs # concat (map nodesOf cs)"

definition forestNodes :: "structure list \<Rightarrow> structure list" where
  "forestNodes graph = concat (map nodesOf graph)"

fun wellParented :: "nat option \<Rightarrow> structure \<Rightarrow> bool" where
  "wellParented q (Structure i p cs) = (p = q \<and> list_all (wellParented (Some i)) cs)"

definition wellFormedForest :: "structure list \<Rightarrow> bool" where
  "wellFormedForest graph =
     (list_all (wellParented None) graph \<and> distinct (map struct_id (forestNodes graph)))"

text \<open>What is observed after an operation or a trace that returns.\<close>

definition meshVisibleAfter :: "state option \<Rightarrow> nat \<Rightarrow> bool option" where
  "meshVisibleAfter r i = (case r of None \<Rightarrow> None | Some s \<Rightarrow> map_option visible (meshObjects s i))"


section \<open>Basic facts\<close>

lemma setAdd_set [simp]: "set (setAdd x xs) = insert x (set xs)"
  by (auto simp: setAdd_def)

lemma obj_get_put: "obj_get (obj_put k v ob) k' = (if k' = k then Some v else obj_get ob k')"
  by (induction ob) (auto simp: obj_get_def)

lemma set_fold_setAdd: "set (fold setAdd xs S) = set xs \<union> set S"
  by (induction xs arbitrary: S) auto

lemma subjectsAt_addSubjects:
  "subjectsAt (addSubjects k subjects ob) k'
     = subjectsAt ob k' \<union> (if k' = k then set subjects else {})"
  by (auto simp: subjectsAt_def addSubjects_def obj_get_put set_fold_setAdd split: option.splits)

lemma subjectsAt_entry: "s \<in> subjectsAt ob r \<Longrightarrow> \<exists>S. (r, S) \<in> set ob \<and> s \<in> set S"
  by (auto simp: subjectsAt_def obj_get_def split: option.splits dest: map_of_SomeD)

subsection \<open>Ancestors and parent walks\<close>

lemma ancestor_first:
  "ancestor idx r a \<Longrightarrow>
     parent idx r = Some a \<or> (\<exists>p. parent idx r = Some p \<and> ancestor idx p a)"
  by (induction rule: ancestor.induct) (auto intro: ancestor.intros)

lemma ancestor_extend: "ancestor idx p k \<Longrightarrow> parent idx c = Some p \<Longrightarrow> ancestor idx c k"
proof (induction rule: ancestor.induct)
  case (ancestor_parent r q)
  then show ?case by (blast intro: ancestor.intros)
next
  case (ancestor_step r a q)
  then show ?case by (blast intro: ancestor.intros)
qed

lemma ancestor_unfold:
  "ancestor idx c k = (case parent idx c of None \<Rightarrow> False | Some p \<Rightarrow> k = p \<or> ancestor idx p k)"
  using ancestor_first [of idx c k] ancestor_extend [of idx _ k c]
  by (auto split: option.splits intro: ancestor_parent)

lemma inChain_Some: "inChain idx (Some c) k = (k = c \<or> inChain idx (parent idx c) k)"
  by (auto simp: inChain_def ancestor_unfold [of idx c] split: option.splits)

lemma inChain_parent: "inChain idx (parent idx c) k = ancestor idx c k"
  by (auto simp: inChain_def ancestor_unfold [of idx c] split: option.splits)

lemma wf_parent_rel_measure:
  "(\<And>c p. parent idx c = Some p \<Longrightarrow> f p < (f c :: nat)) \<Longrightarrow> wf (parent_rel idx)"
  by (rule wf_subset [OF wf_measure [of f]]) (auto simp: parent_rel_def)

lemma walkUp_None: "walkUp idx subjects None totals = Some totals"
  by (subst walkUp.simps) simp

lemma walkUp_Some: "walkUp idx subjects (Some c) totals
    = walkUp idx subjects (parent idx c) (addSubjects c subjects totals)"
  by (subst walkUp.simps) simp

lemma nearestLoop_None: "nearestLoop idx ms None = Some None"
  by (subst nearestLoop.simps) simp

lemma nearestLoop_Some: "nearestLoop idx ms (Some c)
    = (if ms c \<noteq> None then Some (Some c) else nearestLoop idx ms (parent idx c))"
  by (subst nearestLoop.simps) simp

subsection \<open>A well-formed hierarchy has parent chains that end\<close>

lemma forestNodes_Cons:
  "forestNodes (Structure i p cs # nodes) = Structure i p cs # forestNodes cs @ forestNodes nodes"
  by (simp add: forestNodes_def)

lemma forestNodes_Nil: "forestNodes [] = []"
  by (simp add: forestNodes_def)

lemma flattenTree_other:
  "k \<notin> struct_id ` set (forestNodes nodes) \<Longrightarrow> flattenTree nodes m k = m k"
proof (induction nodes m rule: flattenTree.induct)
  case (1 m)
  then show ?case by simp
next
  case (2 i p cs nodes m)
  from "2.prems" have k: "k \<noteq> i" "k \<notin> struct_id ` set (forestNodes cs)"
    "k \<notin> struct_id ` set (forestNodes nodes)"
    by (auto simp: forestNodes_Cons)
  have "flattenTree (Structure i p cs # nodes) m k
          = flattenTree nodes (flattenTree cs (m(i \<mapsto> Structure i p cs))) k"
    by simp
  also have "\<dots> = flattenTree cs (m(i \<mapsto> Structure i p cs)) k"
    by (rule "2.IH"(2) [OF k(3)])
  also have "\<dots> = (m(i \<mapsto> Structure i p cs)) k"
    by (rule "2.IH"(1) [OF k(2)])
  also have "\<dots> = m k" using k(1) by simp
  finally show ?case .
qed

lemma flattenTree_member:
  "flattenTree nodes m k = Some s \<Longrightarrow> m k = Some s \<or> s \<in> set (forestNodes nodes)"
proof (induction nodes m rule: flattenTree.induct)
  case (1 m)
  then show ?case by simp
next
  case (2 i p cs nodes m)
  from "2.IH"(2) [of ] "2.prems"
  have "flattenTree cs (m(i \<mapsto> Structure i p cs)) k = Some s \<or> s \<in> set (forestNodes nodes)"
    by simp
  then show ?case
  proof
    assume "flattenTree cs (m(i \<mapsto> Structure i p cs)) k = Some s"
    from "2.IH"(1) [OF this] show ?thesis
      by (auto simp: forestNodes_Cons split: if_splits)
  next
    assume "s \<in> set (forestNodes nodes)"
    then show ?thesis by (simp add: forestNodes_Cons)
  qed
qed

lemma flattenTree_lookup:
  "distinct (map struct_id (forestNodes nodes)) \<Longrightarrow> t \<in> set (forestNodes nodes) \<Longrightarrow>
     flattenTree nodes m (struct_id t) = Some t"
proof (induction nodes m rule: flattenTree.induct)
  case (1 m)
  then show ?case by (simp add: forestNodes_Nil)
next
  case (2 i p cs nodes m)
  let ?N = "Structure i p cs"
  from "2.prems"(1) have d: "distinct (map struct_id (forestNodes cs))"
    "distinct (map struct_id (forestNodes nodes))"
    "i \<notin> struct_id ` set (forestNodes cs)" "i \<notin> struct_id ` set (forestNodes nodes)"
    "struct_id ` set (forestNodes cs) \<inter> struct_id ` set (forestNodes nodes) = {}"
    by (auto simp: forestNodes_Cons)
  from "2.prems"(2) consider "t = ?N" | "t \<in> set (forestNodes cs)" | "t \<in> set (forestNodes nodes)"
    by (auto simp: forestNodes_Cons)
  then show ?case
  proof cases
    case 1
    have "flattenTree cs (m(i \<mapsto> ?N)) i = Some ?N"
      using flattenTree_other [OF d(3)] by simp
    then show ?thesis using flattenTree_other [OF d(4)] 1 by simp
  next
    case 2
    then have "struct_id t \<notin> struct_id ` set (forestNodes nodes)" using d(5) by auto
    from flattenTree_other [OF this]
    have "flattenTree (?N # nodes) m (struct_id t) = flattenTree cs (m(i \<mapsto> ?N)) (struct_id t)"
      by simp
    also have "\<dots> = Some t" by (rule "2.IH"(1) [OF d(1) 2])
    finally show ?thesis .
  next
    case 3
    from "2.IH"(2) [OF d(2) 3] show ?thesis by simp
  qed
qed

lemma nodesOf_size: "n \<in> set (nodesOf s) \<Longrightarrow> size n \<le> size s"
proof (induction s rule: nodesOf.induct)
  case (1 i p cs)
  show ?case
  proof (cases "n = Structure i p cs")
    case True
    then show ?thesis by simp
  next
    case False
    then obtain c where c: "c \<in> set cs" "n \<in> set (nodesOf c)" using 1(2) by auto
    from 1(1) [OF c] have "size n \<le> size c" .
    also have "size c \<le> size_list size cs" using c(1) by (rule size_list_estimation') simp
    finally show ?thesis by simp
  qed
qed

lemma child_size: "n \<in> set (children t) \<Longrightarrow> size n < size t"
proof (cases t)
  case (Structure i p cs)
  assume "n \<in> set (children t)"
  then have "size n \<le> size_list size cs" using Structure
    by (auto intro: size_list_estimation')
  then show ?thesis using Structure by simp
qed

lemma forestNodes_size: "t \<in> set (forestNodes graph) \<Longrightarrow> size t \<le> size_list size graph"
proof -
  assume "t \<in> set (forestNodes graph)"
  then obtain r where r: "r \<in> set graph" "t \<in> set (nodesOf r)"
    by (auto simp: forestNodes_def)
  from nodesOf_size [OF r(2)] have "size t \<le> size r" .
  also have "size r \<le> size_list size graph" using r(1) by (rule size_list_estimation') simp
  finally show ?thesis .
qed

lemma wellParented_parent:
  "wellParented q s \<Longrightarrow> n \<in> set (nodesOf s) \<Longrightarrow> parent_structure_id n = Some p \<Longrightarrow>
     (n = s \<and> q = Some p)
     \<or> (\<exists>t \<in> set (nodesOf s). struct_id t = p \<and> n \<in> set (children t))"
proof (induction s arbitrary: q rule: nodesOf.induct)
  case (1 i p' cs)
  show ?case
  proof (cases "n = Structure i p' cs")
    case True
    then show ?thesis using 1(2,4) by simp
  next
    case False
    then obtain c where c: "c \<in> set cs" "n \<in> set (nodesOf c)" using 1(3) by auto
    have w: "wellParented (Some i) c" using 1(2) c(1) by (simp add: list_all_iff)
    from 1(1) [OF c(1) w c(2) 1(4)] show ?thesis
    proof
      assume "n = c \<and> Some i = Some p"
      then have "struct_id (Structure i p' cs) = p \<and> n \<in> set (children (Structure i p' cs))"
        using c(1) by simp
      then show ?thesis by (metis list.set_intros(1) nodesOf.simps)
    next
      assume "\<exists>t\<in>set (nodesOf c). struct_id t = p \<and> n \<in> set (children t)"
      then show ?thesis using c(1) by auto
    qed
  qed
qed

lemma wellFormedForest_wf:
  assumes "wellFormedForest graph"
  shows "wf (parent_rel (flattenTree graph Map.empty))"
proof (rule wf_parent_rel_measure [of _ "\<lambda>k. case flattenTree graph Map.empty k of
                                          None \<Rightarrow> 0
                                        | Some s \<Rightarrow> size_list size graph - size s"])
  fix c p
  assume "parent (flattenTree graph Map.empty) c = Some p"
  then obtain s where s: "flattenTree graph Map.empty c = Some s" "parent_structure_id s = Some p"
    by (auto simp: parent_def split: option.splits)
  have sn: "s \<in> set (forestNodes graph)" using flattenTree_member [OF s(1)] by simp
  then obtain r where r: "r \<in> set graph" "s \<in> set (nodesOf r)"
    by (auto simp: forestNodes_def)
  have "wellParented None r" using assms r(1) by (simp add: wellFormedForest_def list_all_iff)
  from wellParented_parent [OF this r(2) s(2)]
  obtain t where t: "t \<in> set (nodesOf r)" "struct_id t = p" "s \<in> set (children t)" by auto
  have tn: "t \<in> set (forestNodes graph)" using t(1) r(1) by (auto simp: forestNodes_def)
  have "flattenTree graph Map.empty p = Some t"
    using flattenTree_lookup [OF _ tn, of Map.empty] assms t(2) by (simp add: wellFormedForest_def)
  moreover have "size s < size t" using child_size [OF t(3)] .
  moreover have "size t \<le> size_list size graph" using forestNodes_size [OF tn] .
  ultimately show "(case flattenTree graph Map.empty p of None \<Rightarrow> 0
                    | Some s \<Rightarrow> size_list size graph - size s)
                 < (case flattenTree graph Map.empty c of None \<Rightarrow> 0
                    | Some s \<Rightarrow> size_list size graph - size s)"
    using s(1) by simp
qed


subsection \<open>Parent walks: results and termination\<close>

lemma walkUp_partial:
  assumes "walkUp idx subjects current totals = Some t"
  shows "\<forall>k. subjectsAt t k
           = subjectsAt totals k \<union> (if inChain idx current k then set subjects else {})"
proof (rule walkUp.raw_induct [where P = "\<lambda>idx subjects current totals t.
    \<forall>k. subjectsAt t k
           = subjectsAt totals k \<union> (if inChain idx current k then set subjects else {})",
    OF _ assms])
  fix w :: "(nat \<rightharpoonup> structure) \<Rightarrow> string list \<Rightarrow> nat option \<Rightarrow> string list obj \<Rightarrow> string list obj option"
  fix idx subjects current totals t
  assume IH: "\<And>i s c tt y. w i s c tt = Some y \<Longrightarrow>
      \<forall>k. subjectsAt y k = subjectsAt tt k \<union> (if inChain i c k then set s else {})"
    and eq: "(case current of None \<Rightarrow> Some totals
              | Some c \<Rightarrow> w idx subjects (parent idx c) (addSubjects c subjects totals)) = Some t"
  show "\<forall>k. subjectsAt t k
           = subjectsAt totals k \<union> (if inChain idx current k then set subjects else {})"
  proof (cases current)
    case None
    then show ?thesis using eq by (simp add: inChain_def)
  next
    case (Some c)
    then have "w idx subjects (parent idx c) (addSubjects c subjects totals) = Some t"
      using eq by simp
    from IH [OF this] show ?thesis
      by (auto simp: Some subjectsAt_addSubjects inChain_Some [of idx c])
  qed
qed

lemma nearestLoop_partial:
  assumes "nearestLoop idx ms current = Some r"
  shows "case r of
        None \<Rightarrow> \<forall>k. inChain idx current k \<longrightarrow> ms k = None
      | Some a \<Rightarrow> inChain idx current a \<and> ms a \<noteq> None"
proof (rule nearestLoop.raw_induct [where P = "\<lambda>idx ms current r.
    case r of
        None \<Rightarrow> \<forall>k. inChain idx current k \<longrightarrow> ms k = None
      | Some a \<Rightarrow> inChain idx current a \<and> ms a \<noteq> None", OF _ assms])
  fix w :: "(nat \<rightharpoonup> structure) \<Rightarrow> (nat \<rightharpoonup> mesh) \<Rightarrow> nat option \<Rightarrow> nat option option"
  fix idx ms current r
  assume IH: "\<And>i m c y. w i m c = Some y \<Longrightarrow>
      (case y of
        None \<Rightarrow> \<forall>k. inChain i c k \<longrightarrow> m k = None
      | Some a \<Rightarrow> inChain i c a \<and> m a \<noteq> None)"
    and eq: "(case current of None \<Rightarrow> Some None
              | Some c \<Rightarrow> if ms c \<noteq> None then Some (Some c) else w idx ms (parent idx c)) = Some r"
  show "case r of
        None \<Rightarrow> \<forall>k. inChain idx current k \<longrightarrow> ms k = None
      | Some a \<Rightarrow> inChain idx current a \<and> ms a \<noteq> None"
  proof (cases current)
    case None
    then show ?thesis using eq by (auto simp: inChain_def)
  next
    case (Some c)
    show ?thesis
    proof (cases "ms c = None")
      case True
      then have "w idx ms (parent idx c) = Some r" using eq Some by simp
      from IH [OF this] show ?thesis using True
        by (auto simp: Some inChain_Some [of idx c] split: option.splits)
    next
      case False
      then show ?thesis using eq Some by (auto simp: inChain_def)
    qed
  qed
qed

lemma walkUp_terminates:
  assumes "wf (parent_rel idx)"
  shows "\<exists>t. walkUp idx subjects current totals = Some t"
proof (cases current)
  case None
  then show ?thesis by (simp add: walkUp_None)
next
  case (Some c)
  have "\<exists>t. walkUp idx subjects (Some c) totals = Some t"
    using assms
  proof (induction c arbitrary: totals rule: wf_induct_rule)
    case (less c)
    show ?case
    proof (cases "parent idx c")
      case None
      then show ?thesis by (simp add: walkUp_Some [of idx subjects c] walkUp_None)
    next
      case (Some p)
      then have "(p, c) \<in> parent_rel idx" by (simp add: parent_rel_def)
      from less.IH [OF this] show ?thesis
        by (simp only: walkUp_Some [of idx subjects c] Some)
    qed
  qed
  with Some show ?thesis by simp
qed

lemma nearestLoop_terminates:
  assumes "wf (parent_rel idx)"
  shows "\<exists>r. nearestLoop idx ms current = Some r"
proof (cases current)
  case None
  then show ?thesis by (simp add: nearestLoop_None)
next
  case (Some c)
  have "\<exists>r. nearestLoop idx ms (Some c) = Some r"
    using assms
  proof (induction c rule: wf_induct_rule)
    case (less c)
    show ?case
    proof (cases "parent idx c")
      case None
      then show ?thesis by (simp add: nearestLoop_Some [of idx ms c] nearestLoop_None)
    next
      case (Some p)
      then have "(p, c) \<in> parent_rel idx" by (simp add: parent_rel_def)
      from less.IH [OF this] show ?thesis
        by (simp add: nearestLoop_Some [of idx ms c] Some)
    qed
  qed
  with Some show ?thesis by simp
qed


section \<open>Subject aggregation: direct counts reach every ancestor\<close>

lemma totalLoop_partial:
  "totalLoop idx entries totals = Some t \<Longrightarrow>
     subjectsAt t k = subjectsAt totals k
        \<union> (\<Union>(r, subjects) \<in> set entries. if inChain idx (Some r) k then set subjects else {})"
proof (induction entries arbitrary: totals)
  case Nil
  then show ?case by simp
next
  case (Cons e entries)
  obtain rid subjects where e: "e = (rid, subjects)" by (cases e)
  from Cons.prems obtain t1 where
    t1: "walkUp idx subjects (parent idx rid) (addSubjects rid subjects totals) = Some t1"
    and t: "totalLoop idx entries t1 = Some t"
    unfolding e by (auto split: option.splits)
  have h1: "subjectsAt t1 k = subjectsAt totals k
              \<union> (if inChain idx (Some rid) k then set subjects else {})"
    using walkUp_partial [OF t1]
    by (auto simp: subjectsAt_addSubjects inChain_Some [of idx rid])
  show ?case unfolding e using Cons.IH [OF t] h1 by auto
qed

lemma totalLoop_terminates:
  assumes "wf (parent_rel idx)"
  shows "\<exists>t. totalLoop idx entries totals = Some t"
proof (induction entries arbitrary: totals)
  case Nil
  then show ?case by simp
next
  case (Cons e entries)
  obtain rid subjects where e: "e = (rid, subjects)" by (cases e)
  obtain t1 where
    "walkUp idx subjects (parent idx rid) (addSubjects rid subjects totals) = Some t1"
    using walkUp_terminates [OF assms] by blast
  then show ?case unfolding e using Cons.IH [of t1] by simp
qed

lemma computeDandisetSubjectCounts_superset:
  assumes "computeDandisetSubjectCounts A dandisetId = Some res"
    and "inChain (idToStructure A) (Some r) k"
  shows "subjectsAt (directSubjects res) r \<subseteq> subjectsAt (totalSubjects res) k"
proof
  fix s assume s: "s \<in> subjectsAt (directSubjects res) r"
  define direct where "direct = fold directOfAsset
      (case dandisetAssets A dandisetId of None \<Rightarrow> [] | Some l \<Rightarrow> l) []"
  from assms(1) have t: "totalLoop (idToStructure A) direct [] = Some (totalSubjects res)"
    and d: "directSubjects res = direct"
    by (auto simp: computeDandisetSubjectCounts_def direct_def Let_def split: option.splits)
  from s obtain S where "(r, S) \<in> set direct" "s \<in> set S"
    using subjectsAt_entry d by metis
  then show "s \<in> subjectsAt (totalSubjects res) k"
    using assms(2) by (subst totalLoop_partial [OF t]) force
qed

lemma computeDandisetSubjectCounts_terminates:
  assumes "wf (parent_rel (idToStructure A))"
  shows "\<exists>res. computeDandisetSubjectCounts A dandisetId = Some res"
proof -
  obtain t where "totalLoop (idToStructure A) (fold directOfAsset
      (case dandisetAssets A dandisetId of None \<Rightarrow> [] | Some l \<Rightarrow> l) []) [] = Some t"
    using totalLoop_terminates [OF assms] by blast
  then show ?thesis by (simp add: computeDandisetSubjectCounts_def Let_def)
qed

text \<open>
  C7. For every dandiset and every asset list, in the result of
  \<open>computeDandisetSubjectCounts\<close> the total subjects of a structure contain its direct
  subjects, and the total subjects of every ancestor reached by the parent walk contain
  them too. The function returns whenever the parent chains of the hierarchy end, as they
  do in every well-formed forest (\<open>wellFormedForest_wf\<close>).
\<close>

theorem aggregation_superset:
  "(wf (parent_rel (idToStructure A))
      \<longrightarrow> (\<exists>res. computeDandisetSubjectCounts A dandisetId = Some res))
   \<and> (\<forall>res. computeDandisetSubjectCounts A dandisetId = Some res
        \<longrightarrow> (\<forall>r. subjectsAt (directSubjects res) r \<subseteq> subjectsAt (totalSubjects res) r
               \<and> (\<forall>a. ancestor (idToStructure A) r a
                     \<longrightarrow> subjectsAt (directSubjects res) r \<subseteq> subjectsAt (totalSubjects res) a)))"
proof (intro conjI impI allI)
  assume "wf (parent_rel (idToStructure A))"
  then show "\<exists>res. computeDandisetSubjectCounts A dandisetId = Some res"
    by (rule computeDandisetSubjectCounts_terminates)
next
  fix res r
  assume res: "computeDandisetSubjectCounts A dandisetId = Some res"
  show "subjectsAt (directSubjects res) r \<subseteq> subjectsAt (totalSubjects res) r"
    by (rule computeDandisetSubjectCounts_superset [OF res]) (simp add: inChain_def)
next
  fix res r a
  assume res: "computeDandisetSubjectCounts A dandisetId = Some res"
    and a: "ancestor (idToStructure A) r a"
  show "subjectsAt (directSubjects res) r \<subseteq> subjectsAt (totalSubjects res) a"
    by (rule computeDandisetSubjectCounts_superset [OF res]) (simp add: inChain_def a)
qed

lemma exampleIndex:
  "idToStructure exampleAtlas =
     [997 \<mapsto> Structure 997 None
               [Structure 8 (Some 997) [Structure 313 (Some 8) [], Structure 512 (Some 8) []]],
      8 \<mapsto> Structure 8 (Some 997) [Structure 313 (Some 8) [], Structure 512 (Some 8) []],
      313 \<mapsto> Structure 313 (Some 8) [],
      512 \<mapsto> Structure 512 (Some 8) []]"
  by (simp add: exampleAtlas_def exampleGraph_def)

lemma example_parent:
  "parent (idToStructure exampleAtlas) c =
     (if c = 512 \<or> c = 313 then Some 8 else if c = 8 then Some 997 else None)"
  by (simp add: exampleIndex parent_def)

lemma example_wellFormed: "wellFormedForest exampleGraph"
  by (simp add: wellFormedForest_def exampleGraph_def forestNodes_def)

lemma example_wf: "wf (parent_rel (idToStructure exampleAtlas))"
  using wellFormedForest_wf [OF example_wellFormed] by (simp add: exampleAtlas_def)

lemma example_counts:
  "computeDandisetSubjectCounts exampleAtlas ''001176''
     = Some \<lparr>directSubjects = [(313, [''sub-A'', ''A'']), (512, [''A''])],
             totalSubjects = [(8, [''sub-A'', ''A'']), (313, [''sub-A'', ''A'']), (512, [''A'']),
                              (997, [''sub-A'', ''A''])]\<rparr>"
  by (simp add: computeDandisetSubjectCounts_def exampleAtlas_def directOfAsset_def
      subjectDirOf_def addSubjects_def obj_get_def setAdd_def walkUp_Some walkUp_None
      example_parent [unfolded exampleAtlas_def, simplified])

lemma example_ancestors313:
  "ancestor (idToStructure exampleAtlas) 313 8 \<and> ancestor (idToStructure exampleAtlas) 313 997"
  by (simp add: ancestor_unfold [of _ 313] ancestor_unfold [of _ 8] example_parent)

theorem aggregation_superset_witness:
  "wf (parent_rel (idToStructure exampleAtlas))
   \<and> ancestor (idToStructure exampleAtlas) 313 8
   \<and> ancestor (idToStructure exampleAtlas) 313 997
   \<and> (\<exists>res. computeDandisetSubjectCounts exampleAtlas ''001176'' = Some res
         \<and> subjectsAt (directSubjects res) 313 = {''sub-A'', ''A''}
         \<and> subjectsAt (directSubjects res) 313 \<subseteq> subjectsAt (totalSubjects res) 313
         \<and> subjectsAt (directSubjects res) 313 \<subseteq> subjectsAt (totalSubjects res) 8
         \<and> subjectsAt (directSubjects res) 313 \<subseteq> subjectsAt (totalSubjects res) 997)"
proof -
  note t = aggregation_superset [of exampleAtlas "''001176''"]
  from t [THEN conjunct1, rule_format, OF example_wf] obtain res where
    res: "computeDandisetSubjectCounts exampleAtlas ''001176'' = Some res" ..
  note p = t [THEN conjunct2, rule_format, OF res]
  have d: "subjectsAt (directSubjects res) 313 = {''sub-A'', ''A''}"
    using res by (auto simp: example_counts subjectsAt_def obj_get_def)
  have 1: "subjectsAt (directSubjects res) 313 \<subseteq> subjectsAt (totalSubjects res) 313"
    by (rule p [THEN conjunct1])
  have 2: "subjectsAt (directSubjects res) 313 \<subseteq> subjectsAt (totalSubjects res) 8"
    by (rule p [THEN conjunct2, rule_format]) (rule example_ancestors313 [THEN conjunct1])
  have 3: "subjectsAt (directSubjects res) 313 \<subseteq> subjectsAt (totalSubjects res) 997"
    by (rule p [THEN conjunct2, rule_format]) (rule example_ancestors313 [THEN conjunct2])
  from res d 1 2 3 have "\<exists>res. computeDandisetSubjectCounts exampleAtlas ''001176'' = Some res
         \<and> subjectsAt (directSubjects res) 313 = {''sub-A'', ''A''}
         \<and> subjectsAt (directSubjects res) 313 \<subseteq> subjectsAt (totalSubjects res) 313
         \<and> subjectsAt (directSubjects res) 313 \<subseteq> subjectsAt (totalSubjects res) 8
         \<and> subjectsAt (directSubjects res) 313 \<subseteq> subjectsAt (totalSubjects res) 997"
    by (intro exI conjI)
  with example_wf example_ancestors313 show ?thesis by (intro conjI) simp_all
qed

section \<open>Properties of the structure index\<close>

lemma fold_walk_mono: "(\<And>c ids. c \<in> set cs \<Longrightarrow> set ids \<subseteq> set (walk c ids))
    \<Longrightarrow> set ids \<subseteq> set (fold walk cs ids)"
proof (induction cs arbitrary: ids)
  case Nil
  then show ?case by simp
next
  case (Cons c cs)
  have "set ids \<subseteq> set (walk c ids)" using Cons.prems by simp
  also have "\<dots> \<subseteq> set (fold walk cs (walk c ids))" using Cons by simp
  finally show ?case by simp
qed

lemma walk_mono: "set ids \<subseteq> set (walk s ids)"
proof (induction s ids rule: walk.induct)
  case (1 i p cs ids)
  have "set (setAdd i ids) \<subseteq> set (fold walk cs (setAdd i ids))"
    by (rule fold_walk_mono) (rule 1)
  then show ?case by auto
qed

lemma walk_contains_root: "struct_id s \<in> set (walk s ids)"
proof (cases s)
  case (Structure i p cs)
  have "set (setAdd i ids) \<subseteq> set (fold walk cs (setAdd i ids))"
    by (rule fold_walk_mono) (rule walk_mono)
  with Structure show ?thesis by auto
qed

lemma flattenTree_ids: "(\<And>k s. m k = Some s \<Longrightarrow> struct_id s = k)
    \<Longrightarrow> flattenTree nodes m k = Some s \<Longrightarrow> struct_id s = k"
proof (induction nodes m arbitrary: k s rule: flattenTree.induct)
  case (1 m)
  then show ?case by simp
next
  case (2 i p cs nodes m)
  let ?m1 = "m(i \<mapsto> Structure i p cs)"
  have m1: "\<And>k s. ?m1 k = Some s \<Longrightarrow> struct_id s = k"
    using "2.prems"(1) by (auto split: if_splits)
  have m2: "\<And>k s. flattenTree cs ?m1 k = Some s \<Longrightarrow> struct_id s = k"
    using "2.IH"(1) m1 by blast
  show ?case using "2.IH"(2) [OF m2] "2.prems"(2) by simp
qed

text \<open>
  C8. For every structure id \<open>x\<close> of the hierarchy (every key of the index that
  \<open>flattenTree\<close> builds from a forest), \<open>getDescendantIds x\<close> returns a finite collection
  of ids that contains \<open>x\<close> itself.
\<close>

theorem getDescendantIds_contains_self:
  assumes "flattenTree structureGraph Map.empty x = Some s"
  shows "x \<in> set (getDescendantIds (flattenTree structureGraph Map.empty) x)
         \<and> finite (set (getDescendantIds (flattenTree structureGraph Map.empty) x))"
proof -
  have "struct_id s = x"
    using flattenTree_ids [of Map.empty structureGraph x s] assms by simp
  then show ?thesis
    using assms walk_contains_root [of s "[]"] by (simp add: getDescendantIds_def)
qed

theorem getDescendantIds_contains_self_witness:
  "flattenTree [Structure 997 None [Structure 8 (Some 997) []]] Map.empty 8
     = Some (Structure 8 (Some 997) [])
   \<and> 8 \<in> set (getDescendantIds (flattenTree [Structure 997 None [Structure 8 (Some 997) []]] Map.empty) 8)
   \<and> getDescendantIds (flattenTree [Structure 997 None [Structure 8 (Some 997) []]] Map.empty) 997
     = [997, 8]"
proof -
  have h: "flattenTree [Structure 997 None [Structure 8 (Some 997) []]] Map.empty 8
           = Some (Structure 8 (Some 997) [])"
    by simp
  show ?thesis
    using h getDescendantIds_contains_self [OF h]
    by (simp add: getDescendantIds_def setAdd_def)
qed

section \<open>Tree badges: what the badge shows\<close>

lemma dec_chars: "set (dec n) \<subseteq> set ''0123456789''"
proof (induction n rule: dec.induct)
  case (1 n)
  have nth: "\<And>k. k < 10 \<Longrightarrow> ''0123456789'' ! k \<in> set ''0123456789''"
    by (rule nth_mem) simp
  show ?case
  proof (cases "n < 10")
    case True
    then show ?thesis using nth [of n] by (subst dec.simps) simp
  next
    case False
    have "n mod 10 < 10" by simp
    then show ?thesis using False 1 nth [of "n mod 10"] by (subst dec.simps) simp
  qed
qed

lemma textOf_plain: "CHR ''<'' \<notin> set ds \<Longrightarrow> textOf False (ds @ r) = ds @ textOf False r"
  by (induction ds) auto

lemma dec_no_lt: "CHR ''<'' \<notin> set (dec n)"
  using dec_chars [of n] by auto

lemma dec_no_slash: "CHR ''/'' \<notin> set (dec n)"
  using dec_chars [of n] by auto

lemma textOf_dec: "textOf False (dec n @ r) = dec n @ textOf False r"
  by (rule textOf_plain) (rule dec_no_lt)

lemma sizeOr0_pos: "0 < sizeOr0 (obj_get ob k) \<longleftrightarrow> subjectsAt ob k \<noteq> {}"
  by (auto simp: sizeOr0_def subjectsAt_def split: option.splits)

lemma badgeCounts_total_pos:
  assumes "countsComputed A st"
    and "badgeCounts st reg nodeId = (direct, total', unit)"
    and "0 < direct"
  shows "0 < total'"
proof (cases "dandisetSubjectCounts st")
  case None
  then show ?thesis using assms(2,3)
    by (auto simp: badgeCounts_def split: option.splits if_splits)
next
  case (Some c)
  then obtain d where d: "computeDandisetSubjectCounts A d = Some c"
    using assms(1) by (auto simp: countsComputed_def)
  have "subjectsAt (directSubjects c) nodeId \<subseteq> subjectsAt (totalSubjects c) nodeId"
    by (rule computeDandisetSubjectCounts_superset [OF d]) (simp add: inChain_def)
  then show ?thesis using assms(2,3) Some
    by (auto simp: badgeCounts_def sizeOr0_pos)
qed

lemma text_slash: \<open>textOf False (''<span class="badge-direct">'' @ dec d @ ''</span>''
                              @ ''<span class="badge-sep">/</span>''
                              @ ''<span class="badge-total">'' @ dec t @ ''</span>'')
     = dec d @ ''/'' @ dec t\<close>
  by (simp add: textOf_dec)

lemma text_direct: \<open>textOf False (''<span class="badge-direct">'' @ dec d @ ''</span>'') = dec d\<close>
  by (simp add: textOf_dec)

lemma text_total: \<open>textOf False (''<span class="badge-total">'' @ dec d @ ''</span>'') = dec d\<close>
  by (simp add: textOf_dec)

text \<open>
  C9. For a node with stats, with the counts \<open>direct\<close> and \<open>total\<close> that \<open>renderBadge\<close>
  reads: the badge shows \<open>direct/total\<close> when \<open>direct > 0\<close> and \<open>direct \<noteq> total\<close>, only
  \<open>direct\<close> when \<open>direct > 0\<close> and \<open>direct = total\<close>, only \<open>total\<close> when \<open>direct = 0\<close> and
  \<open>total > 0\<close>; it shows a slash in the first case and in no other.
\<close>

theorem badge_text:
  assumes "dandiRegions A nodeId = Some reg"
    and "countsComputed A st"
    and "badgeCounts st reg nodeId = (direct, total', unit)"
  shows "(0 < direct \<and> direct \<noteq> total'
            \<longrightarrow> textContent (renderBadge A st nodeId) = dec direct @ ''/'' @ dec total')
       \<and> (0 < direct \<and> direct = total'
            \<longrightarrow> textContent (renderBadge A st nodeId) = dec direct)
       \<and> (direct = 0 \<and> 0 < total'
            \<longrightarrow> textContent (renderBadge A st nodeId) = dec total')
       \<and> (CHR ''/'' \<in> set (textContent (renderBadge A st nodeId))
            \<longleftrightarrow> 0 < direct \<and> direct \<noteq> total')"
proof -
  have pos: "0 < direct \<Longrightarrow> 0 < total'"
    using badgeCounts_total_pos [OF assms(2,3)] .
  show ?thesis
  proof (cases "total' = 0")
    case True
    then have "direct = 0" using pos by auto
    with True show ?thesis using assms(1,3)
      by (simp add: renderBadge_def textContent_def)
  next
    case False
    show ?thesis
    proof (cases "0 < direct \<and> direct \<noteq> total'")
      case True
      then show ?thesis using assms(1,3) False
        by (simp add: renderBadge_def textContent_def text_slash del: append.simps)
    next
      case ns: False
      show ?thesis
      proof (cases "0 < direct")
        case True
        then show ?thesis using assms(1,3) False ns
          by (simp add: renderBadge_def textContent_def text_direct dec_no_slash del: append.simps)
      next
        case False
        then show ?thesis using assms(1,3) ns \<open>total' \<noteq> 0\<close>
          by (simp add: renderBadge_def textContent_def text_total dec_no_slash del: append.simps)
      qed
    qed
  qed
qed


lemma dec_digit: "n < 10 \<Longrightarrow> dec n = [''0123456789'' ! n]"
  by (subst dec.simps) simp

theorem badge_text_witness:
  "textContent (renderBadge exampleAtlas initialState 313) = ''3''
   \<and> textContent (renderBadge exampleAtlas initialState 512) = ''3/7''
   \<and> textContent (renderBadge exampleAtlas initialState 8) = ''5''"
proof -
  have c: "countsComputed exampleAtlas initialState"
    by (simp add: countsComputed_def initialState_def)
  have r313: "dandiRegions exampleAtlas 313 = Some \<lparr>dandiset_count = 3, total_dandiset_count = Some 3\<rparr>"
    and r512: "dandiRegions exampleAtlas 512 = Some \<lparr>dandiset_count = 3, total_dandiset_count = Some 7\<rparr>"
    and r8: "dandiRegions exampleAtlas 8 = Some \<lparr>dandiset_count = 0, total_dandiset_count = Some 5\<rparr>"
    by (simp_all add: exampleAtlas_def)
  have b313: "badgeCounts initialState \<lparr>dandiset_count = 3, total_dandiset_count = Some 3\<rparr> 313
                = (3, 3, ''dandisets'')"
    and b512: "badgeCounts initialState \<lparr>dandiset_count = 3, total_dandiset_count = Some 7\<rparr> 512
                = (3, 7, ''dandisets'')"
    and b8: "badgeCounts initialState \<lparr>dandiset_count = 0, total_dandiset_count = Some 5\<rparr> 8
                = (0, 5, ''dandisets'')"
    by (simp_all add: badgeCounts_def initialState_def)
  show ?thesis
    using badge_text [OF r313 c b313] badge_text [OF r512 c b512] badge_text [OF r8 c b8]
    by (simp add: dec_digit)
qed

section \<open>Classification of a mesh at load completion\<close>

lemma ensureMeshLoaded_env:
  "\<exists>f g. snd (ensureMeshLoaded i s) = s\<lparr>fetches := f, inFlight := g\<rparr>"
proof (cases "meshObjects s i = None \<and> i \<notin> failedMeshIds s")
  case True
  then show ?thesis by (auto simp: ensureMeshLoaded_def loadMesh_def)
next
  case False
  have "s = s\<lparr>fetches := fetches s, inFlight := inFlight s\<rparr>" by simp
  moreover have "snd (ensureMeshLoaded i s) = s"
    using False by (auto simp: ensureMeshLoaded_def split: option.splits)
  ultimately show ?thesis by metis
qed

lemma fold_ensure_env:
  "\<exists>f g. fold (\<lambda>i s. if c i s then snd (ensureMeshLoaded i s) else s) xs st
           = st\<lparr>fetches := f, inFlight := g\<rparr>"
proof (induction xs arbitrary: st)
  case Nil
  have "st = st\<lparr>fetches := fetches st, inFlight := inFlight st\<rparr>" by simp
  then show ?case by (metis fold_simps(1))
next
  case (Cons x xs)
  obtain f g where 1: "(if c x st then snd (ensureMeshLoaded x st) else st) = st\<lparr>fetches := f, inFlight := g\<rparr>"
  proof (cases "c x st")
    case True
    then show ?thesis using ensureMeshLoaded_env [of x st] that by auto
  next
    case False
    have "st = st\<lparr>fetches := fetches st, inFlight := inFlight st\<rparr>" by simp
    then show ?thesis using False that by metis
  qed
  from Cons.IH [of "st\<lparr>fetches := f, inFlight := g\<rparr>"] obtain f' g' where
    "fold (\<lambda>i s. if c i s then snd (ensureMeshLoaded i s) else s) xs (st\<lparr>fetches := f, inFlight := g\<rparr>)
       = st\<lparr>fetches := f', inFlight := g'\<rparr>" by auto
  then show ?case using 1 by (simp del: ensureMeshLoaded_def) metis
qed


lemma example_desc8: "getDescendantIds (idToStructure exampleAtlas) 8 = [8, 313, 512]"
  by (simp add: exampleIndex getDescendantIds_def setAdd_def)



section \<open>Isolation of a selected region\<close>

lemma findNearest_terminates:
  "wf (parent_rel (idToStructure A)) \<Longrightarrow> \<exists>r. findNearestAncestorWithMesh A st i = Some r"
  unfolding findNearestAncestorWithMesh_def by (rule nearestLoop_terminates)

lemma findNearest_partial:
  assumes "findNearestAncestorWithMesh A st i = Some r"
  shows "case r of
           None \<Rightarrow> \<forall>a. ancestor (idToStructure A) i a \<longrightarrow> meshObjects st a = None
         | Some a \<Rightarrow> ancestor (idToStructure A) i a \<and> meshObjects st a \<noteq> None"
  using nearestLoop_partial [OF assms [unfolded findNearestAncestorWithMesh_def]]
  by (cases r) (simp_all add: inChain_parent)

lemma findNearest_cong:
  "meshObjects st' = meshObjects st \<Longrightarrow>
     findNearestAncestorWithMesh A st' i = findNearestAncestorWithMesh A st i"
  by (simp add: findNearestAncestorWithMesh_def)

lemma applyIsolation_env:
  "applyIsolation i act fb (st\<lparr>fetches := f, inFlight := g\<rparr>)
     = (applyIsolation i act fb st)\<lparr>fetches := f, inFlight := g\<rparr>"
  by (simp add: applyIsolation_def Let_def)

lemma isolateRegion_result:
  assumes "shownId A st i = Some showId"
  shows "\<exists>f g. isolateRegion A i st
           = Some (st\<lparr>meshObjects := (\<lambda>j. map_option
                      (\<lambda>m. if Some j = showId then applyActive m else applyDimmed m)
                      (meshObjects st j)),
                   fetches := f, inFlight := g\<rparr>)"
proof -
  define fb where "fb = (if meshObjects st i = None then showId else None)"
  have fb: "(if meshObjects st i = None then findNearestAncestorWithMesh A st i else Some None)
              = Some fb"
    using assms by (auto simp: shownId_def fb_def split: if_splits)
  define act where "act = (case fb of
       Some f \<Rightarrow> if f \<noteq> 0 then setAdd f (getDescendantIds (idToStructure A) i)
                 else getDescendantIds (idToStructure A) i
     | None \<Rightarrow> getDescendantIds (idToStructure A) i)"
  obtain f g where fg: "fold (\<lambda>j s. if meshObjects s j = None
                         \<and> (j \<in> dataStructureIds A \<or> j \<in> ancestorStructureIds A)
                      then snd (ensureMeshLoaded j s) else s) act st
        = st\<lparr>fetches := f, inFlight := g\<rparr>"
    using fold_ensure_env [of "\<lambda>j s. meshObjects s j = None
                         \<and> (j \<in> dataStructureIds A \<or> j \<in> ancestorStructureIds A)" act st]
    by blast
  have show_eq: "(if meshObjects st i \<noteq> None then Some i else fb) = showId"
    using assms by (auto simp: shownId_def fb_def split: if_splits)
  have "isolateRegion A i st = Some (applyIsolation i act fb (st\<lparr>fetches := f, inFlight := g\<rparr>))"
    unfolding isolateRegion_def fb by (simp add: Let_def act_def [symmetric] fg)
  also have "applyIsolation i act fb (st\<lparr>fetches := f, inFlight := g\<rparr>)
     = st\<lparr>meshObjects := (\<lambda>j. map_option
                      (\<lambda>m. if Some j = showId then applyActive m else applyDimmed m)
                      (meshObjects st j)),
                   fetches := f, inFlight := g\<rparr>"
    unfolding applyIsolation_env by (simp only: applyIsolation_def Let_def show_eq)
  finally show ?thesis by blast
qed

lemma shownId_terminates:
  "wf (parent_rel (idToStructure A)) \<Longrightarrow> \<exists>r. shownId A st i = Some r"
  using findNearest_terminates [of A st i] by (auto simp: shownId_def)

lemma shownId_cong:
  "meshObjects st' = meshObjects st \<Longrightarrow> shownId A st' i = shownId A st i"
  by (simp add: shownId_def findNearestAncestorWithMesh_def)

lemma isolateRegion_fields:
  assumes "shownId A st i = Some showId"
  shows "\<exists>st'. isolateRegion A i st = Some st'
           \<and> meshObjects st' = (\<lambda>j. map_option
                 (\<lambda>m. if Some j = showId then applyActive m else applyDimmed m)
                 (meshObjects st j))
           \<and> selectedId st' = selectedId st \<and> selectedDandiset st' = selectedDandiset st
           \<and> hash st' = hash st"
proof -
  from isolateRegion_result [OF assms] obtain f where
    "\<exists>g. isolateRegion A i st = Some (st\<lparr>meshObjects := (\<lambda>j. map_option
                      (\<lambda>m. if Some j = showId then applyActive m else applyDimmed m)
                      (meshObjects st j)), fetches := f, inFlight := g\<rparr>)" ..
  then obtain g where
    r: "isolateRegion A i st = Some (st\<lparr>meshObjects := (\<lambda>j. map_option
                      (\<lambda>m. if Some j = showId then applyActive m else applyDimmed m)
                      (meshObjects st j)), fetches := f, inFlight := g\<rparr>)" ..
  then show ?thesis by simp
qed

lemma selectRegion_fields:
  assumes "shownId A st i = Some showId"
  shows "\<exists>st'. selectRegion A i pushState st = Some st'
           \<and> meshObjects st' = (\<lambda>j. map_option
                 (\<lambda>m. if Some j = showId then applyActive m else applyDimmed m)
                 (meshObjects st j))
           \<and> selectedId st' = Some i \<and> selectedDandiset st' = None
           \<and> hash st' = (if pushState then ''region='' @ dec i else hash st)"
proof -
  define st2 where "st2 = st\<lparr>selectedId := Some i, selectedDandiset := None,
       hiddenRegionIds := {}, hash := (if pushState then ''region='' @ dec i else hash st)\<rparr>"
  have sel: "selectRegion A i pushState st
               = map_option (\<lambda>s. s\<lparr>panel := None\<rparr>) (isolateRegion A i st2)"
    by (simp add: selectRegion_def st2_def Let_def setHash_def)
  have m: "meshObjects st2 = meshObjects st" by (simp add: st2_def)
  have "shownId A st2 i = Some showId" using assms shownId_cong [OF m] by simp
  from isolateRegion_fields [OF this] obtain st' where
    "isolateRegion A i st2 = Some st'"
    "meshObjects st' = (\<lambda>j. map_option
                 (\<lambda>m. if Some j = showId then applyActive m else applyDimmed m)
                 (meshObjects st2 j))"
    "selectedId st' = selectedId st2" "selectedDandiset st' = selectedDandiset st2"
    "hash st' = hash st2"
    by blast
  then show ?thesis unfolding sel by (simp add: st2_def)
qed


lemma ancestor_trancl: "ancestor idx r a \<Longrightarrow> (a, r) \<in> (parent_rel idx)\<^sup>+"
proof (induction rule: ancestor.induct)
  case (ancestor_parent r p)
  then show ?case by (simp add: parent_rel_def r_into_trancl')
next
  case (ancestor_step r a p)
  then have "(p, a) \<in> parent_rel idx" by (simp add: parent_rel_def)
  with ancestor_step.IH show ?case by (rule trancl_into_trancl2 [rotated])
qed

lemma ancestor_irrefl: "wf (parent_rel idx) \<Longrightarrow> \<not> ancestor idx c c"
  using ancestor_trancl [of idx c c] wf_trancl [of "parent_rel idx"] by (auto dest: wf_not_refl)

lemma ancestor_trans: "ancestor idx a b \<Longrightarrow> ancestor idx r a \<Longrightarrow> ancestor idx r b"
proof (induction rule: ancestor.induct)
  case (ancestor_parent a p)
  then show ?case by (blast intro: ancestor_step)
next
  case (ancestor_step a b p)
  then show ?case by (blast intro: ancestor.ancestor_step)
qed

lemma nearestLoop_nearest:
  assumes "wf (parent_rel idx)"
  shows "nearestLoop idx ms (Some c) = Some (Some a) \<Longrightarrow>
           inChain idx (Some c) k \<Longrightarrow> ancestor idx k a \<Longrightarrow> ms k = None"
  using assms
proof (induction c rule: wf_induct_rule)
  case (less c)
  show ?case
  proof (cases "ms c = None")
    case False
    then have a: "a = c" using less.prems(1) by (simp add: nearestLoop_Some [of idx ms c])
    have "ancestor idx c c"
    proof (cases "k = c")
      case True
      then show ?thesis using less.prems(3) a by simp
    next
      case False
      then have "ancestor idx c k" using less.prems(2) by (simp add: inChain_def)
      from less.prems(3) [unfolded a] this show ?thesis by (rule ancestor_trans)
    qed
    then show ?thesis using ancestor_irrefl [OF assms] by blast
  next
    case True
    note noMesh = this
    show ?thesis
    proof (cases "parent idx c")
      case None
      then show ?thesis using less.prems(1) noMesh
        by (simp add: nearestLoop_Some [of idx ms c] nearestLoop_None)
    next
      case (Some p)
      then have pc: "(p, c) \<in> parent_rel idx" by (simp add: parent_rel_def)
      have r: "nearestLoop idx ms (Some p) = Some (Some a)"
        using less.prems(1) noMesh Some by (simp add: nearestLoop_Some [of idx ms c])
      show ?thesis
      proof (cases "k = c")
        case True
        then show ?thesis using noMesh by simp
      next
        case False
        then have "inChain idx (Some p) k"
          using less.prems(2) Some by (simp add: inChain_Some [of idx c])
        then show ?thesis using less.IH [OF pc] r less.prems(3) assms by blast
      qed
    qed
  qed
qed

lemma findNearest_nearest:
  assumes "wf (parent_rel (idToStructure A))"
    and "findNearestAncestorWithMesh A st i = Some (Some a)"
    and "ancestor (idToStructure A) i k" and "ancestor (idToStructure A) k a"
  shows "meshObjects st k = None"
proof (cases "parent (idToStructure A) i")
  case None
  then show ?thesis using assms(2)
    by (simp add: findNearestAncestorWithMesh_def nearestLoop_None)
next
  case (Some p)
  then have "nearestLoop (idToStructure A) (meshObjects st) (Some p) = Some (Some a)"
    using assms(2) by (simp add: findNearestAncestorWithMesh_def)
  moreover have "inChain (idToStructure A) (Some p) k"
    using assms(3) Some inChain_parent [of "idToStructure A" i k] by simp
  ultimately show ?thesis using nearestLoop_nearest [OF assms(1)] assms(4) by blast
qed

text \<open>
  C3 (amended). On a hierarchy whose parent chains end, \<open>selectRegion\<close> returns, and of the
  loaded meshes it leaves visible (and so pickable) exactly one: the mesh of the selected
  structure or, when that is not loaded, the mesh of its nearest ancestor that has one
  (what \<open>findNearestAncestorWithMesh\<close> finds; no mesh at all when no ancestor has one).
  Every other loaded mesh, the meshes of the descendants included, is dimmed; no mesh is
  added or removed.
\<close>

theorem selectRegion_isolation:
  assumes "wf (parent_rel (idToStructure A))"
  shows "\<exists>st' showId.
           selectRegion A structureId pushState st = Some st'
         \<and> shownId A st structureId = Some showId
         \<and> (case showId of
              None \<Rightarrow> \<forall>a. ancestor (idToStructure A) structureId a \<longrightarrow> meshObjects st a = None
            | Some a \<Rightarrow> (a = structureId \<or> ancestor (idToStructure A) structureId a)
                         \<and> meshObjects st a \<noteq> None
                         \<and> (\<forall>k. ancestor (idToStructure A) structureId k
                                  \<and> ancestor (idToStructure A) k a
                                \<longrightarrow> meshObjects st k = None))
         \<and> (\<forall>i. case meshObjects st' i of
                   None \<Rightarrow> meshObjects st i = None
                 | Some m \<Rightarrow> meshObjects st i \<noteq> None
                     \<and> visible m = (Some i = showId)
                     \<and> userData_isDimmed m = (Some i \<noteq> showId)
                     \<and> (pickable m \<longrightarrow> Some i = showId))"
proof -
  obtain showId where s: "shownId A st structureId = Some showId"
    using shownId_terminates [OF assms] by blast
  from selectRegion_fields [OF s] obtain st' where
    r: "selectRegion A structureId pushState st = Some st'"
    and m: "meshObjects st' = (\<lambda>j. map_option
                      (\<lambda>m. if Some j = showId then applyActive m else applyDimmed m)
                      (meshObjects st j))"
    by blast
  have c: "case showId of
              None \<Rightarrow> \<forall>a. ancestor (idToStructure A) structureId a \<longrightarrow> meshObjects st a = None
            | Some a \<Rightarrow> (a = structureId \<or> ancestor (idToStructure A) structureId a)
                         \<and> meshObjects st a \<noteq> None
                         \<and> (\<forall>k. ancestor (idToStructure A) structureId k
                                  \<and> ancestor (idToStructure A) k a
                                \<longrightarrow> meshObjects st k = None)"
  proof (cases "meshObjects st structureId = None")
    case True
    then have f: "findNearestAncestorWithMesh A st structureId = Some showId"
      using s by (simp add: shownId_def)
    show ?thesis
    proof (cases showId)
      case None
      then show ?thesis using findNearest_partial [OF f] by simp
    next
      case (Some a)
      then show ?thesis
        using findNearest_partial [OF f] findNearest_nearest [OF assms f [unfolded Some]]
        by auto
    qed
  next
    case False
    then have "showId = Some structureId" using s by (simp add: shownId_def)
    moreover have "\<not> (ancestor (idToStructure A) structureId k
                      \<and> ancestor (idToStructure A) k structureId)" for k
      using ancestor_trans [of "idToStructure A" k structureId structureId]
        ancestor_irrefl [OF assms, of structureId] by blast
    ultimately show ?thesis using False by auto
  qed
  have "case meshObjects st' i of
                   None \<Rightarrow> meshObjects st i = None
                 | Some m \<Rightarrow> meshObjects st i \<noteq> None
                     \<and> visible m = (Some i = showId)
                     \<and> userData_isDimmed m = (Some i \<noteq> showId)
                     \<and> (pickable m \<longrightarrow> Some i = showId)" for i
    unfolding m by (cases "meshObjects st i") (auto simp: applyActive_def applyDimmed_def pickable_def)
  then show ?thesis using r s c by blast
qed

lemma exampleLoaded_meshes:
  "meshObjects exampleLoaded =
     [997 \<mapsto> \<lparr>userData_structureId = 997, userData_isData = False, userData_isRoot = True,
               visible = True, userData_isDimmed = False, material = OriginalMaterial\<rparr>,
      8 \<mapsto> \<lparr>userData_structureId = 8, userData_isData = True, userData_isRoot = False,
             visible = True, userData_isDimmed = False, material = OriginalMaterial\<rparr>,
      313 \<mapsto> \<lparr>userData_structureId = 313, userData_isData = True, userData_isRoot = False,
               visible = True, userData_isDimmed = False, material = OriginalMaterial\<rparr>]"
  by (simp add: exampleLoaded_def onLoad_def initialState_def exampleAtlas_def Let_def)

lemma example_shown8: "shownId exampleAtlas exampleLoaded 8 = Some (Some 8)"
  by (simp add: shownId_def exampleLoaded_meshes)

lemma example_shown512: "shownId exampleAtlas exampleLoaded 512 = Some (Some 8)"
  by (simp add: shownId_def exampleLoaded_meshes findNearestAncestorWithMesh_def
      example_parent nearestLoop_Some)

text \<open>
  Selecting region 8 with nothing selected before hides the loaded mesh of its
  descendant 313.
\<close>

theorem descendant_hidden_counterexample:
  "313 \<in> set (getDescendantIds (idToStructure exampleAtlas) 8)
   \<and> map_option visible (meshObjects exampleLoaded 313) = Some True
   \<and> selectedId exampleLoaded = None \<and> selectedDandiset exampleLoaded = None
   \<and> meshVisibleAfter (selectRegion exampleAtlas 8 True exampleLoaded) 8 = Some True
   \<and> meshVisibleAfter (selectRegion exampleAtlas 8 True exampleLoaded) 313 = Some False"
proof -
  obtain st' where "selectRegion exampleAtlas 8 True exampleLoaded = Some st'"
    "meshObjects st' = (\<lambda>j. map_option
                 (\<lambda>m. if Some j = Some 8 then applyActive m else applyDimmed m)
                 (meshObjects exampleLoaded j))"
    using selectRegion_fields [OF example_shown8, of True] by blast
  moreover have "selectedId exampleLoaded = None \<and> selectedDandiset exampleLoaded = None"
    by (simp add: exampleLoaded_def onLoad_def initialState_def Let_def)
  ultimately show ?thesis
    by (simp add: example_desc8 exampleLoaded_meshes applyDimmed_def applyActive_def
        meshVisibleAfter_def)
qed

theorem selectRegion_isolation_witness:
  "(case selectRegion exampleAtlas 512 True exampleLoaded of
      None \<Rightarrow> False
    | Some s \<Rightarrow> map_option visible (meshObjects s 8) = Some True
              \<and> map_option visible (meshObjects s 313) = Some False
              \<and> map_option visible (meshObjects s 997) = Some False
              \<and> meshObjects s 512 = None)"
proof -
  obtain st' showId where
    s: "selectRegion exampleAtlas 512 True exampleLoaded = Some st'"
    and sh: "shownId exampleAtlas exampleLoaded 512 = Some showId"
    and v: "\<And>i. case meshObjects st' i of
                   None \<Rightarrow> meshObjects exampleLoaded i = None
                 | Some m \<Rightarrow> meshObjects exampleLoaded i \<noteq> None
                     \<and> visible m = (Some i = showId)
                     \<and> userData_isDimmed m = (Some i \<noteq> showId)
                     \<and> (pickable m \<longrightarrow> Some i = showId)"
    using selectRegion_isolation [OF example_wf, of 512 True exampleLoaded] by blast
  have showId: "showId = Some 8" using sh example_shown512 by simp
  show ?thesis
    using v [of 8] v [of 313] v [of 997] v [of 512]
    by (auto simp: s showId exampleLoaded_meshes split: option.splits)
qed

section \<open>Lazy loading: which calls fetch\<close>

lemma ensureMeshLoaded_fetches:
  "fetches (snd (ensureMeshLoaded i st))
     = fetches st @ (if meshObjects st i = None \<and> i \<notin> failedMeshIds st then [i] else [])"
  by (auto simp: ensureMeshLoaded_def loadMesh_def split: option.splits)

lemma ensureMeshLoaded_registry:
  "meshObjects (snd (ensureMeshLoaded i st)) = meshObjects st
   \<and> failedMeshIds (snd (ensureMeshLoaded i st)) = failedMeshIds st"
  by (auto simp: ensureMeshLoaded_def loadMesh_def split: option.splits)

lemma loadMesh_done_fetches: "fetches (loadMesh_done A i out st) = fetches st"
  by (cases out) (simp_all add: loadMesh_done_def onLoad_def Let_def)

lemma loadMesh_done_registry:
  "(meshObjects st j \<noteq> None \<longrightarrow> meshObjects (loadMesh_done A i out st) j \<noteq> None)
   \<and> failedMeshIds st \<subseteq> failedMeshIds (loadMesh_done A i out st)"
  by (cases out) (auto simp: loadMesh_done_def onLoad_def Let_def)

lemma step_fetches:
  "step A ev st = Some st' \<Longrightarrow>
     fetches st' = fetches st @
       (case ev of
          Ensure j \<Rightarrow> if meshObjects st j = None \<and> j \<notin> failedMeshIds st then [j] else []
        | Completed j out \<Rightarrow> [])"
  by (cases ev) (auto simp: step_def ensureMeshLoaded_fetches loadMesh_done_fetches split: if_splits)

lemma step_registry:
  "step A ev st = Some st' \<Longrightarrow>
     (meshObjects st j \<noteq> None \<longrightarrow> meshObjects st' j \<noteq> None)
     \<and> failedMeshIds st \<subseteq> failedMeshIds st'"
  using loadMesh_done_registry [of st j A]
  by (cases ev) (auto simp: step_def ensureMeshLoaded_registry split: if_splits)

lemma run_settled:
  "run A evs st = Some st' \<Longrightarrow> meshObjects st i \<noteq> None \<or> i \<in> failedMeshIds st \<Longrightarrow>
     count_list (fetches st') i = count_list (fetches st) i
     \<and> (meshObjects st i \<noteq> None \<longrightarrow> meshObjects st' i \<noteq> None)
     \<and> (i \<in> failedMeshIds st \<longrightarrow> i \<in> failedMeshIds st')"
proof (induction evs arbitrary: st)
  case Nil
  then show ?case by simp
next
  case (Cons ev evs)
  from Cons.prems(1) obtain st1 where s1: "step A ev st = Some st1" and r: "run A evs st1 = Some st'"
    by (auto split: option.splits)
  have reg: "(meshObjects st i \<noteq> None \<longrightarrow> meshObjects st1 i \<noteq> None)
     \<and> failedMeshIds st \<subseteq> failedMeshIds st1"
    using step_registry [OF s1] .
  then have settled: "meshObjects st1 i \<noteq> None \<or> i \<in> failedMeshIds st1"
    using Cons.prems(2) by auto
  have "count_list (fetches st1) i = count_list (fetches st) i"
    using step_fetches [OF s1] Cons.prems(2) by (cases ev) auto
  with Cons.IH [OF r settled] reg show ?case by auto
qed

text \<open>
  C4 (amended). \<open>ensureMeshLoaded\<close> issues no fetch for a structure that is already loaded
  or whose fetch has already failed: across any sequence of calls and completions that
  follows, the number of fetches issued for it stays the same, and a further call neither
  fetches nor returns a pending promise. Whether a call fetches depends on these two
  tables alone: a structure that is neither loaded nor failed is fetched by every call,
  also while a request for it is in flight.
\<close>

theorem ensureMeshLoaded_no_refetch:
  assumes "run A evs st = Some st'"
    and "meshObjects st i \<noteq> None \<or> i \<in> failedMeshIds st"
  shows "count_list (fetches st') i = count_list (fetches st) i
       \<and> fetches (snd (ensureMeshLoaded i st')) = fetches st'
       \<and> fst (ensureMeshLoaded i st') \<noteq> Pending
       \<and> fetches (snd (ensureMeshLoaded j s))
           = fetches s @ (if meshObjects s j = None \<and> j \<notin> failedMeshIds s then [j] else [])"
proof -
  from run_settled [OF assms] have c: "count_list (fetches st') i = count_list (fetches st) i"
    and s: "meshObjects st' i \<noteq> None \<or> i \<in> failedMeshIds st'"
    using assms(2) by auto
  from s have "fetches (snd (ensureMeshLoaded i st')) = fetches st'"
    by (auto simp: ensureMeshLoaded_fetches)
  moreover from s have "fst (ensureMeshLoaded i st') \<noteq> Pending"
    by (auto simp: ensureMeshLoaded_def split: option.splits)
  ultimately show ?thesis using c ensureMeshLoaded_fetches [of j s] by simp
qed

text \<open>
  Two calls for the same structure before the first request completes (as the click on a
  tree node makes them, through \<open>selectRegion\<close> and directly) issue two fetches.
\<close>

theorem duplicate_fetch_counterexample:
  "map_option fetches (run exampleAtlas [Ensure 512, Ensure 512] initialState) = Some [512, 512]
   \<and> map_option inFlight (run exampleAtlas [Ensure 512, Ensure 512] initialState) = Some [512, 512]"
  by (simp add: step_def ensureMeshLoaded_def loadMesh_def initialState_def)

theorem ensureMeshLoaded_no_refetch_witness:
  "meshObjects exampleLoaded 313 \<noteq> None
   \<and> map_option fetches (run exampleAtlas [Ensure 313, Ensure 313] exampleLoaded) = Some []"
proof -
  have l: "meshObjects exampleLoaded 313 \<noteq> None"
    by (simp add: exampleLoaded_meshes)
  have f: "fetches exampleLoaded = []"
    by (simp add: exampleLoaded_def onLoad_def initialState_def Let_def)
  obtain st' where r: "run exampleAtlas [Ensure 313, Ensure 313] exampleLoaded = Some st'"
    by (simp add: step_def)
  have "fetches (snd (ensureMeshLoaded 313 exampleLoaded)) = fetches exampleLoaded"
    using ensureMeshLoaded_no_refetch [of exampleAtlas "[]" exampleLoaded exampleLoaded 313] l
    by simp
  moreover have "count_list (fetches st') 313 = 0"
    using ensureMeshLoaded_no_refetch [OF r, of 313] l f by simp
  moreover have "fetches st' = []"
    using r l by (auto simp: step_def ensureMeshLoaded_def f split: option.splits)
  ultimately show ?thesis using l r by simp
qed




section \<open>At most one of region and dandiset is selected\<close>

lemma sameSelection_refl [simp]: "sameSelection st st"
  by (simp add: sameSelection_def)

lemma sameSelection_trans: "sameSelection a b \<Longrightarrow> sameSelection b c \<Longrightarrow> sameSelection a c"
  by (simp add: sameSelection_def)

lemma loadMissing_fold_env:
  "\<exists>n f g. fold (\<lambda>sid (n, s).
        if meshObjects s sid = None \<and> sid \<notin> failedMeshIds s \<and> sid \<notin> noMeshIds A
        then (Suc n, snd (ensureMeshLoaded sid s)) else (n, s)) ids (n0, st)
      = (n, st\<lparr>fetches := f, inFlight := g\<rparr>)"
proof (induction ids arbitrary: n0 st)
  case Nil
  have "st = st\<lparr>fetches := fetches st, inFlight := inFlight st\<rparr>" by simp
  then show ?case by (metis fold_simps(1))
next
  case (Cons x xs)
  let ?F = "\<lambda>sid (n, s).
        if meshObjects s sid = None \<and> sid \<notin> failedMeshIds s \<and> sid \<notin> noMeshIds A
        then (Suc n, snd (ensureMeshLoaded sid s)) else (n, s)"
  obtain n1 f g where 1: "?F x (n0, st) = (n1, st\<lparr>fetches := f, inFlight := g\<rparr>)"
  proof (cases "meshObjects st x = None \<and> x \<notin> failedMeshIds st \<and> x \<notin> noMeshIds A")
    case True
    obtain f g where "snd (ensureMeshLoaded x st) = st\<lparr>fetches := f, inFlight := g\<rparr>"
      using ensureMeshLoaded_env by blast
    then have "?F x (n0, st) = (Suc n0, st\<lparr>fetches := f, inFlight := g\<rparr>)"
      using True by simp
    then show ?thesis using that by blast
  next
    case False
    then have "?F x (n0, st) = (n0, st\<lparr>fetches := fetches st, inFlight := inFlight st\<rparr>)"
      by auto
    then show ?thesis using that by blast
  qed
  from Cons.IH [of n1 "st\<lparr>fetches := f, inFlight := g\<rparr>"] obtain n f' g' where
    "fold ?F xs (n1, st\<lparr>fetches := f, inFlight := g\<rparr>)
       = (n, st\<lparr>fetches := f', inFlight := g'\<rparr>)"
    by auto
  then have "fold ?F (x # xs) (n0, st) = (n, st\<lparr>fetches := f', inFlight := g'\<rparr>)"
    using 1 by (simp del: split_paired_All)
  then show ?case by blast
qed

lemma loadMissing_fields:
  assumes "loadMissing A ids st = (n, st')"
  shows "sameSelection st st' \<and> meshObjects st' = meshObjects st
         \<and> hiddenRegionIds st' = hiddenRegionIds st"
proof -
  obtain n1 f g where "loadMissing A ids st = (n1, st\<lparr>fetches := f, inFlight := g\<rparr>)"
    unfolding loadMissing_def using loadMissing_fold_env [of A ids 0 st] by blast
  with assms have "st' = st\<lparr>fetches := f, inFlight := g\<rparr>" by simp
  then show ?thesis by (simp add: sameSelection_def)
qed

lemma buildMeshToRegions_terminates:
  assumes "wf (parent_rel (idToStructure A))"
  shows "\<exists>r. buildMeshToRegions A st sids acc = Some r"
proof (induction sids arbitrary: acc)
  case Nil
  then show ?case by simp
next
  case (Cons sid sids)
  obtain a m where acc: "acc = (a, m)" by (cases acc)
  obtain r where r: "findNearestAncestorWithMesh A st sid = Some r"
    using findNearest_terminates [OF assms] by blast
  show ?case unfolding acc using Cons.IH r
    by (cases r) (auto split: option.splits)
qed

lemma projectStructureIds_selection:
  "projectStructureIds A ids st = Some st' \<Longrightarrow> sameSelection st st'"
  by (auto simp: projectStructureIds_def sameSelection_def Let_def split: option.splits)

lemma projectStructureIds_terminates:
  assumes "wf (parent_rel (idToStructure A))"
  shows "\<exists>st'. projectStructureIds A ids st = Some st'"
proof -
  obtain r where "buildMeshToRegions A st ids (set ids, Map.empty) = Some r"
    using buildMeshToRegions_terminates [OF assms] by blast
  then show ?thesis by (cases r) (simp add: projectStructureIds_def Let_def)
qed

lemma isolateStructureIds_selection:
  assumes "isolateStructureIds A ids st = Some st'"
  shows "sameSelection st st'"
proof -
  obtain n st1 where l: "loadMissing A ids st = (n, st1)" by (cases "loadMissing A ids st")
  have 1: "sameSelection st st1" using loadMissing_fields [OF l] by simp
  show ?thesis
  proof (cases "n > 0")
    case True
    then have "st' = st1" using assms l by (simp add: isolateStructureIds_def)
    then show ?thesis using 1 by simp
  next
    case False
    then have "projectStructureIds A ids st1 = Some st'"
      using assms l by (simp add: isolateStructureIds_def isolateStructureIds_resume_def)
    from projectStructureIds_selection [OF this] 1 show ?thesis
      by (rule sameSelection_trans [rotated])
  qed
qed

lemma isolateStructureIds_terminates:
  assumes "wf (parent_rel (idToStructure A))"
  shows "\<exists>st'. isolateStructureIds A ids st = Some st'"
proof -
  obtain n st1 where l: "loadMissing A ids st = (n, st1)" by (cases "loadMissing A ids st")
  obtain st2 where "projectStructureIds A ids st1 = Some st2"
    using projectStructureIds_terminates [OF assms] by blast
  then show ?thesis using l
    by (simp add: isolateStructureIds_def isolateStructureIds_resume_def)
qed

lemma sameSelection_atMostOne: "sameSelection st st' \<Longrightarrow> atMostOne st \<Longrightarrow> atMostOne st'"
  by (simp add: sameSelection_def atMostOne_def)

lemma selectRegion_enters:
  assumes "wf (parent_rel (idToStructure A))"
  shows "\<exists>st'. selectRegion A i pushState st = Some st'
           \<and> selectedId st' = Some i \<and> selectedDandiset st' = None"
proof -
  obtain showId where "shownId A st i = Some showId"
    using shownId_terminates [OF assms] by blast
  from selectRegion_fields [OF this, of pushState] show ?thesis by blast
qed

lemma selectDandiset_resume_selection:
  "selectDandiset_resume A d st = Some st' \<Longrightarrow> sameSelection st st'"
  unfolding selectDandiset_resume_def by (rule projectStructureIds_selection)

lemma selectDandiset_resume_terminates:
  "wf (parent_rel (idToStructure A)) \<Longrightarrow> \<exists>st'. selectDandiset_resume A d st = Some st'"
  unfolding selectDandiset_resume_def by (rule projectStructureIds_terminates)

lemma selectDandiset_enters:
  assumes "wf (parent_rel (idToStructure A))"
  shows "\<exists>st'. selectDandiset A d pushState st = Some st'
           \<and> selectedDandiset st' = Some d \<and> selectedId st' = None"
proof -
  obtain counts where c: "computeDandisetSubjectCounts A d = Some counts"
    using computeDandisetSubjectCounts_terminates [OF assms] by blast
  define st2 where "st2 = (if pushState then setHash (''dandiset='' @ d)
        (st\<lparr>selectedDandiset := Some d, selectedId := None,
                       dandisetRegionFilter := None, dandisetSubjectCounts := Some counts,
                       hiddenRegionIds := {}\<rparr>)
      else st\<lparr>selectedDandiset := Some d, selectedId := None,
                       dandisetRegionFilter := None, dandisetSubjectCounts := Some counts,
                       hiddenRegionIds := {}\<rparr>)"
  have s2: "selectedDandiset st2 = Some d \<and> selectedId st2 = None"
    by (simp add: st2_def setHash_def)
  obtain n st3 where l: "loadMissing A (structuresOf A d) st2 = (n, st3)"
    by (cases "loadMissing A (structuresOf A d) st2")
  have s3: "sameSelection st2 st3" using loadMissing_fields [OF l] by simp
  have eq: "selectDandiset A d pushState st
              = (if n > 0 then Some st3 else selectDandiset_resume A d st3)"
    by (simp add: selectDandiset_def c Let_def st2_def [symmetric] l)
  show ?thesis
  proof (cases "n > 0")
    case True
    then show ?thesis using eq s2 s3 by (simp add: sameSelection_def)
  next
    case False
    obtain st4 where r: "selectDandiset_resume A d st3 = Some st4"
      using selectDandiset_resume_terminates [OF assms] by blast
    from selectDandiset_resume_selection [OF r] s3 s2 False eq r show ?thesis
      by (simp add: sameSelection_def)
  qed
qed

lemma filterDandisetPanelByRegion_selection:
  assumes "filterDandisetPanelByRegion A i pushState st = Some st'"
  shows "sameSelection st st'"
proof (cases "selectedDandiset st")
  case None
  then show ?thesis using assms by (simp add: filterDandisetPanelByRegion_def)
next
  case (Some d)
  show ?thesis
  proof (cases "d = []")
    case True
    then show ?thesis using assms Some by (simp add: filterDandisetPanelByRegion_def)
  next
    case False
    define st2 where "st2 = (if pushState
        then setHash (''dandiset='' @ d @ ''&region='' @ dec i) (st\<lparr>dandisetRegionFilter := Some i\<rparr>)
        else st\<lparr>dandisetRegionFilter := Some i\<rparr>)"
    have s2: "sameSelection st st2" by (simp add: st2_def sameSelection_def setHash_def)
    obtain ids where "isolateStructureIds A ids st2 = Some st'"
      using assms Some False
      by (auto simp: filterDandisetPanelByRegion_def Let_def st2_def split: if_splits)
    from isolateStructureIds_selection [OF this] s2 show ?thesis
      by (rule sameSelection_trans [rotated])
  qed
qed

lemma filterDandisetPanelByRegion_terminates:
  assumes "wf (parent_rel (idToStructure A))"
  shows "\<exists>st'. filterDandisetPanelByRegion A i pushState st = Some st'"
  using isolateStructureIds_terminates [OF assms]
  by (simp add: filterDandisetPanelByRegion_def Let_def split: option.splits)

lemma clearDandisetFilter_clears:
  "selectedId (clearDandisetFilter st) = None \<and> selectedDandiset (clearDandisetFilter st) = None"
  by (simp add: clearDandisetFilter_def Let_def)

lemma sessionRowClick_selection:
  assumes "sessionRowClick A d row st = Some st'"
  shows "sameSelection st st'"
proof -
  obtain st2 where "isolateStructureIds A (row_region_ids row) st2 = Some st'"
    and "sameSelection st st2"
    using assms by (auto simp: sessionRowClick_def Let_def setHash_def sameSelection_def split: if_splits)
  then show ?thesis using isolateStructureIds_selection sameSelection_trans by blast
qed

lemma subjectCardClick_selection:
  assumes "subjectCardClick A d c st = Some st'"
  shows "sameSelection st st'"
proof -
  obtain st2 where "isolateStructureIds A (card_region_ids c) st2 = Some st'"
    and "sameSelection st st2"
    using assms
    by (auto simp: subjectCardClick_def Let_def setHash_def sameSelection_def
        split: if_splits option.splits)
  then show ?thesis using isolateStructureIds_selection sameSelection_trans by blast
qed

lemma selectSubjectByDir_selection:
  assumes "selectSubjectByDir A d subjectDir sessionAssetId st = Some st'"
  shows "sameSelection st st'"
  using assms sessionRowClick_selection subjectCardClick_selection
  by (auto simp: selectSubjectByDir_def Let_def split: option.splits if_splits)

lemma selectSubjectByDir_terminates:
  assumes "wf (parent_rel (idToStructure A))"
  shows "\<exists>st'. selectSubjectByDir A d subjectDir sessionAssetId st = Some st'"
  using isolateStructureIds_terminates [OF assms]
  by (simp add: selectSubjectByDir_def sessionRowClick_def subjectCardClick_def Let_def
      split: option.splits)

lemma applyHashState_atMostOne:
  assumes "wf (parent_rel (idToStructure A))" and "atMostOne st"
  shows "\<exists>k st'. applyHashState A st = Some (k, st') \<and> atMostOne st'"
proof (cases "hash st = []")
  case True
  then show ?thesis using assms(2)
    by (auto simp: applyHashState_def atMostOne_def showAllRegions_def)
next
  case False
  show ?thesis
  proof (cases "truthy (parseParams (hash st) ''region'')")
    case (Some r)
    show ?thesis
    proof (cases "parseInt r")
      case None
      then show ?thesis using assms(2) False Some by (simp add: applyHashState_def Let_def)
    next
      case (Some sid)
      note sid = this
      show ?thesis
      proof (cases "structureAt A sid \<noteq> None")
        case True
        obtain st' where "selectRegion A (nat sid) False st = Some st'"
          "selectedId st' = Some (nat sid)" "selectedDandiset st' = None"
          using selectRegion_enters [OF assms(1)] by blast
        then show ?thesis using False \<open>truthy (parseParams (hash st) ''region'') = Some r\<close> sid True
          by (simp add: applyHashState_def Let_def atMostOne_def)
      next
        case False
        then show ?thesis
          using assms(2) \<open>hash st \<noteq> []\<close> \<open>truthy (parseParams (hash st) ''region'') = Some r\<close> sid
          by (simp add: applyHashState_def Let_def)
      qed
    qed
  next
    case None
    note noRegion = this
    show ?thesis
    proof (cases "truthy (parseParams (hash st) ''dandiset'')")
      case None
      then show ?thesis using assms(2) False noRegion by (simp add: applyHashState_def Let_def)
    next
      case (Some did)
      show ?thesis
      proof (cases "dandisetToStructures A did \<noteq> None")
        case True
        obtain st' where "selectDandiset A did False st = Some st'"
          "selectedDandiset st' = Some did" "selectedId st' = None"
          using selectDandiset_enters [OF assms(1)] by blast
        then show ?thesis using \<open>hash st \<noteq> []\<close> noRegion Some True
          by (simp add: applyHashState_def Let_def atMostOne_def)
      next
        case False
        then show ?thesis using assms(2) \<open>hash st \<noteq> []\<close> noRegion Some
          by (simp add: applyHashState_def Let_def)
      qed
    qed
  qed
qed

lemma applyHashState_resume_selection:
  assumes "applyHashState_resume A params did st = Some st'"
  shows "sameSelection st st'"
proof -
  obtain st1 where 1: "(case truthy (params ''region'') of
              Some r \<Rightarrow>
                (case parseInt r of
                   None \<Rightarrow> Some st
                 | Some rid \<Rightarrow>
                     if structureAt A rid \<noteq> None
                     then filterDandisetPanelByRegion A (nat rid) False st else Some st)
            | None \<Rightarrow> Some st) = Some st1"
    and 2: "(case truthy (params ''subject'') of
             Some subj \<Rightarrow> selectSubjectByDir A did subj (truthy (params ''session'')) st1
           | None \<Rightarrow> Some st1) = Some st'"
    using assms by (auto simp: applyHashState_resume_def split: option.splits)
  have a: "sameSelection st st1"
    using 1 filterDandisetPanelByRegion_selection
    by (auto split: option.splits if_splits)
  have b: "sameSelection st1 st'"
    using 2 selectSubjectByDir_selection by (auto split: option.splits)
  from a b show ?thesis by (rule sameSelection_trans)
qed

lemma applyHashState_resume_terminates:
  assumes "wf (parent_rel (idToStructure A))"
  shows "\<exists>st'. applyHashState_resume A params did st = Some st'"
proof -
  obtain st1 where 1: "(case truthy (params ''region'') of
              Some r \<Rightarrow>
                (case parseInt r of
                   None \<Rightarrow> Some st
                 | Some rid \<Rightarrow>
                     if structureAt A rid \<noteq> None
                     then filterDandisetPanelByRegion A (nat rid) False st else Some st)
            | None \<Rightarrow> Some st) = Some st1"
  proof (cases "truthy (params ''region'')")
    case None
    then show ?thesis using that by simp
  next
    case (Some r)
    show ?thesis
    proof (cases "parseInt r")
      case None
      then show ?thesis using that Some by simp
    next
      case (Some rid)
      obtain st1 where "filterDandisetPanelByRegion A (nat rid) False st = Some st1"
        using filterDandisetPanelByRegion_terminates [OF assms] by blast
      then show ?thesis
        using that Some \<open>truthy (params ''region'') = Some r\<close> by (cases "structureAt A rid \<noteq> None") simp_all
    qed
  qed
  obtain st2 where "(case truthy (params ''subject'') of
             Some subj \<Rightarrow> selectSubjectByDir A did subj (truthy (params ''session'')) st1
           | None \<Rightarrow> Some st1) = Some st2"
  proof (cases "truthy (params ''subject'')")
    case None
    then show ?thesis using that by simp
  next
    case (Some subj)
    obtain st2 where "selectSubjectByDir A did subj (truthy (params ''session'')) st1 = Some st2"
      using selectSubjectByDir_terminates [OF assms] by blast
    then show ?thesis using that Some by simp
  qed
  then show ?thesis using 1 by (simp add: applyHashState_resume_def)
qed

lemma exec_atMostOne:
  assumes "wf (parent_rel (idToStructure A))" and "atMostOne st"
  shows "\<exists>st'. exec A ope st = Some st' \<and> atMostOne st'"
proof (cases ope)
  case (SelectRegion i p)
  then show ?thesis using selectRegion_enters [OF assms(1), of i p st]
    by (auto simp: atMostOne_def)
next
  case (SelectDandiset d p)
  then show ?thesis using selectDandiset_enters [OF assms(1), of d p st]
    by (auto simp: atMostOne_def)
next
  case (SelectDandisetResume d)
  obtain st' where r: "selectDandiset_resume A d st = Some st'"
    using selectDandiset_resume_terminates [OF assms(1)] by blast
  from selectDandiset_resume_selection [OF r] assms(2) have "atMostOne st'"
    by (rule sameSelection_atMostOne)
  then show ?thesis using SelectDandisetResume r by simp
next
  case (FilterDandisetPanelByRegion i p)
  obtain st' where r: "filterDandisetPanelByRegion A i p st = Some st'"
    using filterDandisetPanelByRegion_terminates [OF assms(1)] by blast
  from filterDandisetPanelByRegion_selection [OF r] assms(2) have "atMostOne st'"
    by (rule sameSelection_atMostOne)
  then show ?thesis using FilterDandisetPanelByRegion r by simp
next
  case ClearDandisetFilter
  then show ?thesis using clearDandisetFilter_clears [of st] by (simp add: atMostOne_def)
next
  case ApplyHashState
  then show ?thesis using applyHashState_atMostOne [OF assms] by auto
next
  case (ApplyHashStateResume params did)
  obtain st' where r: "applyHashState_resume A params did st = Some st'"
    using applyHashState_resume_terminates [OF assms(1)] by blast
  from applyHashState_resume_selection [OF r] assms(2) have "atMostOne st'"
    by (rule sameSelection_atMostOne)
  then show ?thesis using ApplyHashStateResume r by simp
qed

lemma execAll_atMostOne:
  assumes "wf (parent_rel (idToStructure A))"
  shows "atMostOne st \<Longrightarrow> \<exists>st'. execAll A ops st = Some st' \<and> atMostOne st'"
proof (induction ops arbitrary: st)
  case Nil
  then show ?case by simp
next
  case (Cons ope ops)
  obtain st1 where "exec A ope st = Some st1" "atMostOne st1"
    using exec_atMostOne [OF assms Cons.prems] by blast
  then show ?case using Cons.IH [of st1] by simp
qed

text \<open>
  C6. On a hierarchy whose parent chains end, every sequence of selection operations
  (\<open>selectRegion\<close>, \<open>selectDandiset\<close> and its continuation, \<open>filterDandisetPanelByRegion\<close>,
  \<open>clearDandisetFilter\<close>, \<open>applyHashState\<close> and its continuation) run from a state in which
  at most one of \<open>selectedId\<close> and \<open>selectedDandiset\<close> is set returns and ends in such a
  state; \<open>selectRegion\<close> sets the region and clears the dandiset, \<open>selectDandiset\<close> sets the
  dandiset and clears the region.
\<close>

theorem selection_exclusive:
  assumes "wf (parent_rel (idToStructure A))"
    and "selectedId st = None \<or> selectedDandiset st = None"
  shows "(\<exists>st'. execAll A ops st = Some st'
            \<and> (selectedId st' = None \<or> selectedDandiset st' = None))
       \<and> (\<exists>st'. selectRegion A i pushState st = Some st'
            \<and> selectedId st' = Some i \<and> selectedDandiset st' = None)
       \<and> (\<exists>st'. selectDandiset A d pushState st = Some st'
            \<and> selectedDandiset st' = Some d \<and> selectedId st' = None)"
  using execAll_atMostOne [OF assms(1), of st ops] assms(2)
    selectRegion_enters [OF assms(1), of i pushState st]
    selectDandiset_enters [OF assms(1), of d pushState st]
  by (simp add: atMostOne_def)

theorem selection_exclusive_witness:
  "(case execAll exampleAtlas
           [SelectRegion 8 True, SelectDandiset ''001176'' True,
            FilterDandisetPanelByRegion 313 True, ApplyHashState, ClearDandisetFilter,
            SelectDandiset ''001176'' False, SelectRegion 313 False]
           exampleLoaded of
      None \<Rightarrow> False
    | Some s \<Rightarrow> selectedId s = None \<or> selectedDandiset s = None)
   \<and> (case selectRegion exampleAtlas 8 True exampleLoaded of
         None \<Rightarrow> False
       | Some s \<Rightarrow> selectedId s = Some 8 \<and> selectedDandiset s = None)
   \<and> (case selectDandiset exampleAtlas ''001176'' True exampleLoaded of
         None \<Rightarrow> False
       | Some s \<Rightarrow> selectedDandiset s = Some ''001176'' \<and> selectedId s = None)"
proof -
  have h: "selectedId exampleLoaded = None \<or> selectedDandiset exampleLoaded = None"
    by (simp add: exampleLoaded_def onLoad_def initialState_def Let_def)
  show ?thesis
    using selection_exclusive [OF example_wf h,
      where ops = "[SelectRegion 8 True, SelectDandiset ''001176'' True,
            FilterDandisetPanelByRegion 313 True, ApplyHashState, ClearDandisetFilter,
            SelectDandiset ''001176'' False, SelectRegion 313 False]"
        and i = 8 and d = "''001176''" and pushState = True]
    by (auto simp del: execAll.simps)
qed

section \<open>URL hash: decoding a dandiset with a region\<close>

lemma example_params:
  "truthy (parseParams ''dandiset=001176&region=313'' ''region'') = Some ''313''
   \<and> truthy (parseParams ''dandiset=001176&region=313'' ''dandiset'') = Some ''001176''"
  by (simp add: parseParams_def truthy_def)

lemma parseInt_313: "parseInt ''313'' = Some 313"
  by (simp add: parseInt_def digitVal_def isWhite_def Let_def)

lemma dec_313: "dec 313 = ''313''"
  by (simp add: dec.simps [of 313] dec.simps [of 31] dec.simps [of 3])

lemma example_shown313: "shownId exampleAtlas exampleLoaded 313 = Some (Some 313)"
  by (simp add: shownId_def exampleLoaded_meshes)

lemma shownId_hash: "shownId A (st\<lparr>hash := h\<rparr>) i = shownId A st i"
  by (simp add: shownId_def findNearestAncestorWithMesh_def)

lemma loadMissing_nav:
  assumes "loadMissing A ids st = (n, st')"
  shows "hash st' = hash st \<and> dandisetRegionFilter st' = dandisetRegionFilter st"
proof -
  obtain n1 f g where "loadMissing A ids st = (n1, st\<lparr>fetches := f, inFlight := g\<rparr>)"
    unfolding loadMissing_def using loadMissing_fold_env [of A ids 0 st] by blast
  with assms have "st' = st\<lparr>fetches := f, inFlight := g\<rparr>" by simp
  then show ?thesis by simp
qed

lemma projectStructureIds_nav:
  "projectStructureIds A ids st = Some st' \<Longrightarrow>
     hash st' = hash st \<and> dandisetRegionFilter st' = dandisetRegionFilter st"
  by (auto simp: projectStructureIds_def Let_def split: option.splits)

lemma isolateStructureIds_nav:
  assumes "isolateStructureIds A ids st = Some st'"
  shows "hash st' = hash st \<and> dandisetRegionFilter st' = dandisetRegionFilter st"
proof -
  obtain n st1 where l: "loadMissing A ids st = (n, st1)" by (cases "loadMissing A ids st")
  note 1 = loadMissing_nav [OF l]
  show ?thesis
  proof (cases "n > 0")
    case True
    then have "st' = st1" using assms l by (simp add: isolateStructureIds_def)
    then show ?thesis using 1 by simp
  next
    case False
    then have "projectStructureIds A ids st1 = Some st'"
      using assms l by (simp add: isolateStructureIds_def isolateStructureIds_resume_def)
    from projectStructureIds_nav [OF this] 1 show ?thesis by simp
  qed
qed

lemma filterDandisetPanelByRegion_pushes:
  assumes "selectedDandiset st = Some d" and "d \<noteq> []"
    and "filterDandisetPanelByRegion A i True st = Some st'"
  shows "hash st' = ''dandiset='' @ d @ ''&region='' @ dec i
         \<and> dandisetRegionFilter st' = Some i"
proof -
  define st2 where "st2 = setHash (''dandiset='' @ d @ ''&region='' @ dec i)
      (st\<lparr>dandisetRegionFilter := Some i\<rparr>)"
  obtain ids where "isolateStructureIds A ids st2 = Some st'"
    using assms by (auto simp: filterDandisetPanelByRegion_def Let_def st2_def split: if_splits)
  from isolateStructureIds_nav [OF this] show ?thesis
    by (simp add: st2_def setHash_def)
qed

text \<open>
  The continuation of \<open>applyHashState\<close> is only reached without a region parameter, so
  its call of \<open>filterDandisetPanelByRegion\<close> is never made.
\<close>

lemma applyHashState_filter_unreachable:
  assumes "applyHashState A st = Some (AwaitSelectDandiset params did, st')"
  shows "truthy (params ''region'') = None"
proof (cases "truthy (parseParams (hash st) ''region'')")
  case None
  then show ?thesis using assms
    by (auto simp: applyHashState_def Let_def split: if_splits option.splits)
next
  case (Some r)
  then show ?thesis using assms
    by (auto simp: applyHashState_def Let_def split: if_splits option.splits)
qed

text \<open>
  C1. The string \<open>dandiset=001176&region=313\<close> is one the code produces (by
  \<open>filterDandisetPanelByRegion\<close> under the dandiset 001176). Decoding it selects the
  region 313 and no dandiset, a state that the code encodes as \<open>region=313\<close>: the round
  trip does not give the string back.
\<close>

theorem hash_dandiset_region_decodes_to_region:
  "(case filterDandisetPanelByRegion exampleAtlas 313 True
           (exampleLoaded\<lparr>selectedDandiset := Some ''001176''\<rparr>) of
      None \<Rightarrow> False
    | Some s \<Rightarrow> hash s = ''dandiset=001176&region=313''
                \<and> selectedDandiset s = Some ''001176'' \<and> dandisetRegionFilter s = Some 313)
   \<and> (case applyHashState exampleAtlas (exampleLoaded\<lparr>hash := ''dandiset=001176&region=313''\<rparr>) of
         None \<Rightarrow> False
       | Some (k, s) \<Rightarrow> k = Finished \<and> selectedId s = Some 313 \<and> selectedDandiset s = None)
   \<and> (case selectRegion exampleAtlas 313 True exampleLoaded of
         None \<Rightarrow> False
       | Some s \<Rightarrow> selectedId s = Some 313 \<and> selectedDandiset s = None
                   \<and> hash s = ''region=313'')"
proof -
  have sh: "shownId exampleAtlas (exampleLoaded\<lparr>hash := ''dandiset=001176&region=313''\<rparr>) 313
              = Some (Some 313)"
    by (simp add: shownId_hash example_shown313)
  obtain s where s: "selectRegion exampleAtlas 313 False
        (exampleLoaded\<lparr>hash := ''dandiset=001176&region=313''\<rparr>) = Some s"
    "selectedId s = Some 313" "selectedDandiset s = None"
    using selectRegion_fields [OF sh, of False] by blast
  have at: "structureAt exampleAtlas 313 \<noteq> None"
    by (simp add: structureAt_def exampleIndex)
  have 1: "applyHashState exampleAtlas (exampleLoaded\<lparr>hash := ''dandiset=001176&region=313''\<rparr>)
        = Some (Finished, s)"
    using example_params parseInt_313 at s(1)
    by (simp add: applyHashState_def Let_def)
  obtain s' where s': "selectRegion exampleAtlas 313 True exampleLoaded = Some s'"
    "selectedId s' = Some 313" "selectedDandiset s' = None"
    "hash s' = ''region='' @ dec 313"
    using selectRegion_fields [OF example_shown313, of True] by auto
  obtain t where t: "filterDandisetPanelByRegion exampleAtlas 313 True
           (exampleLoaded\<lparr>selectedDandiset := Some ''001176''\<rparr>) = Some t"
    using filterDandisetPanelByRegion_terminates [OF example_wf] by blast
  have d: "selectedDandiset (exampleLoaded\<lparr>selectedDandiset := Some ''001176''\<rparr>) = Some ''001176''"
    by simp
  have "hash t = ''dandiset=001176&region=313'' \<and> dandisetRegionFilter t = Some 313"
    using filterDandisetPanelByRegion_pushes [OF d _ t] by (simp add: dec_313)
  moreover have "selectedDandiset t = Some ''001176''"
    using filterDandisetPanelByRegion_selection [OF t] by (simp add: sameSelection_def)
  ultimately show ?thesis using 1 s s' t by (simp add: dec_313)
qed

theorem hash_dandiset_region_decodes_to_region_witness:
  "map_option (\<lambda>(k, s). (selectedId s, selectedDandiset s))
     (applyHashState exampleAtlas (exampleLoaded\<lparr>hash := ''dandiset=001176&region=313''\<rparr>))
   = Some (Some 313, None)"
  using hash_dandiset_region_decodes_to_region by (auto split: option.splits)

section \<open>Subject groups of the panel and of the badges\<close>

text \<open>
  C10. For the two assets of the example, whose subject directories are \<open>sub-A\<close> and
  \<open>A\<close>, the panel forms one subject group keyed \<open>A\<close> holding both assets, while the
  aggregation counts two direct subjects for region 313: the two partitions differ.
\<close>

theorem subject_partitions_differ:
  "subjectDirOf ''sub-A/sub-A_ses-1.nwb'' = ''sub-A''
   \<and> subjectDirOf ''A/A_ses-2.nwb'' = ''A''
   \<and> stripSub (subjectDirOf ''sub-A/sub-A_ses-1.nwb'') = stripSub (subjectDirOf ''A/A_ses-2.nwb'')
   \<and> map (\<lambda>(k, e). (k, entry_subjectDir e, map asset_id (entry_assets e), entry_regions e))
         (groupSubjects
            [\<lparr>path = ''sub-A/sub-A_ses-1.nwb'', asset_id = ''a1'', regions = [313]\<rparr>,
             \<lparr>path = ''A/A_ses-2.nwb'', asset_id = ''a2'', regions = [313, 512]\<rparr>])
       = [(''A'', ''sub-A'', [''a1'', ''a2''], [313, 512])]
   \<and> map_option (\<lambda>c. obj_get (directSubjects c) 313)
         (computeDandisetSubjectCounts exampleAtlas ''001176'')
       = Some (Some [''sub-A'', ''A''])
   \<and> map_option (\<lambda>c. sizeOr0 (obj_get (directSubjects c) 313))
         (computeDandisetSubjectCounts exampleAtlas ''001176'')
       = Some 2"
  by (simp add: example_counts obj_get_def sizeOr0_def subjectDirOf_def stripSub_def
      groupSubjects_def groupAsset_def setAdd_def Let_def)

end
